theory Spec2Isabelle
  imports Main "HOL-Library.AList" "HOL-Library.Multiset"
begin

section \<open>Data model\<close>

text \<open>
  The interface \<^verbatim>\<open>Student\<close> of the client library. A \<^verbatim>\<open>Student[]\<close> is an array of
  references to such objects: an array is a list of references (\<open>sref\<close>), and the objects
  live in a store that maps a reference to the fields of its object. Two slots of an array
  hold the same object exactly when they hold the same reference, which is what
  \<^verbatim>\<open>indexOf\<close> (strict equality) compares.
\<close>

record Student =
  id' :: int
  level :: string
  room :: string
  number :: string
  name :: string
  is_winner :: bool

type_synonym sref = nat

type_synonym store = "sref \<Rightarrow> Student"

text \<open>The only exception the function could raise: a method call on \<^verbatim>\<open>undefined\<close>.\<close>

datatype js_error = TypeError

subsection \<open>The random source\<close>

text \<open>
  \<^verbatim>\<open>Math.random()\<close> is external. Its behaviour during one call is a sequence of natural
  numbers, consumed from the front; a sequence that is used up goes on with zeros. The code
  uses the random source in two ways only, and both are read off that sequence:

  \<^item> \<^verbatim>\<open>Math.floor(Math.random() * n)\<close> for \<open>n > 0\<close> is an index below \<open>n\<close>: the next number
    modulo \<open>n\<close>;
  \<^item> \<^verbatim>\<open>xs.sort(() => Math.random() - 0.5)\<close> leaves the array in an order that the engine's
    sorting algorithm and the random comparisons determine. The model takes it to be a
    permutation of the array, chosen by the random source: the next numbers select, one after
    the other, which of the remaining elements comes next. Every permutation is the outcome
    of some sequence, and the all-zero sequence leaves the order as it is.
\<close>

type_synonym rnd = "nat list"

fun next_random :: "rnd \<Rightarrow> nat \<times> rnd" where
  "next_random [] = (0, [])"
| "next_random (r # rs) = (r, rs)"

definition random_index :: "nat \<Rightarrow> rnd \<Rightarrow> nat \<times> rnd" where
  "random_index n rs = (case next_random rs of (r, rs') \<Rightarrow> (r mod n, rs'))"

fun random_perm :: "nat \<Rightarrow> 'a list \<Rightarrow> rnd \<Rightarrow> 'a list \<times> rnd" where
  "random_perm 0 xs rs = ([], rs)"
| "random_perm (Suc k) xs rs =
     (if xs = [] then ([], rs)
      else case random_index (length xs) rs of (i, rs') \<Rightarrow>
        (case random_perm k (take i xs @ drop (Suc i) xs) rs' of (ys, rs'') \<Rightarrow>
          (xs ! i # ys, rs'')))"

definition random_sort :: "'a list \<Rightarrow> rnd \<Rightarrow> 'a list \<times> rnd" where
  "random_sort xs rs = random_perm (length xs) xs rs"

subsection \<open>Maps, arrays and truthiness of JavaScript\<close>

text \<open>
  A \<^verbatim>\<open>Map\<close> iterates in insertion order and \<^verbatim>\<open>set\<close> on a key that is present keeps its
  place: an association list with \<^const>\<open>map_of\<close> for \<^verbatim>\<open>get\<close> and \<^const>\<open>AList.update\<close> for
  \<^verbatim>\<open>set\<close>. A \<^verbatim>\<open>Set\<close> of strings is the list of its members in insertion order.
\<close>

type_synonym 'v jsmap = "(string \<times> 'v) list"

definition set_add :: "string \<Rightarrow> string list \<Rightarrow> string list" where
  "set_add x xs = (if x \<in> set xs then xs else xs @ [x])"

text \<open>\<^verbatim>\<open>m.get(k) || 0\<close> on a map of numbers.\<close>

definition get_or_0 :: "int jsmap \<Rightarrow> string \<Rightarrow> int" where
  "get_or_0 m k = (case map_of m k of None \<Rightarrow> 0 | Some c \<Rightarrow> c)"

text \<open>
  A variable of type \<^verbatim>\<open>string | null\<close> in a condition: \<^verbatim>\<open>null\<close> and the empty string are
  falsy, every other string is truthy. An object reference is truthy, \<^verbatim>\<open>null\<close> is not.
\<close>

fun truthy_string :: "string option \<Rightarrow> bool" where
  "truthy_string None = False"
| "truthy_string (Some s) = (s \<noteq> [])"

fun truthy_object :: "sref option \<Rightarrow> bool" where
  "truthy_object None = False"
| "truthy_object (Some r) = True"

text \<open>\<^verbatim>\<open>xs.indexOf(x)\<close>: the first index that holds \<open>x\<close>, or \<open>-1\<close>.\<close>

fun indexOf :: "'a list \<Rightarrow> 'a \<Rightarrow> int" where
  "indexOf [] x = -1"
| "indexOf (y # ys) x =
     (if y = x then 0 else (let i = indexOf ys x in if i < 0 then -1 else i + 1))"

text \<open>
  \<^verbatim>\<open>xs.splice(idx, 1)\<close>: a negative start counts from the end (so \<open>-1\<close> removes the last
  element), a start beyond the end removes nothing.
\<close>

definition splice1 :: "int \<Rightarrow> 'a list \<Rightarrow> 'a list" where
  "splice1 idx xs =
     (let len = int (length xs);
          start = (if idx < 0 then max (len + idx) 0 else min idx len)
      in take (nat start) xs @ drop (Suc (nat start)) xs)"

section \<open>The fair distribution shuffle\<close>

subsection \<open>Setup\<close>

text \<open>Group students by level (the first loop).\<close>

fun group_by_level :: "store \<Rightarrow> sref list \<Rightarrow> (sref list) jsmap \<Rightarrow> (sref list) jsmap" where
  "group_by_level objs [] byLevel = byLevel"
| "group_by_level objs (student # rest) byLevel =
     (let levelStudents = (case map_of byLevel (level (objs student)) of
                             None \<Rightarrow> [] | Some b \<Rightarrow> b)
      in group_by_level objs rest
           (AList.update (level (objs student)) (levelStudents @ [student]) byLevel))"

text \<open>Count unique rooms per level (the second loop).\<close>

fun rooms_per_level :: "store \<Rightarrow> sref list \<Rightarrow> (string list) jsmap \<Rightarrow> (string list) jsmap" where
  "rooms_per_level objs [] roomsPerLevel = roomsPerLevel"
| "rooms_per_level objs (student # rest) roomsPerLevel =
     (let rooms = (case map_of roomsPerLevel (level (objs student)) of
                     None \<Rightarrow> [] | Some rs \<Rightarrow> rs)
      in rooms_per_level objs rest
           (AList.update (level (objs student)) (set_add (room (objs student)) rooms)
              roomsPerLevel))"

text \<open>
  Shuffle students within each level (the third loop): every entry of \<^verbatim>\<open>byLevel\<close>, in
  order, is set to its own array, sorted in place with the random comparator.
\<close>

fun shuffle_levels :: "(sref list) jsmap \<Rightarrow> rnd \<Rightarrow> (sref list) jsmap \<times> rnd" where
  "shuffle_levels [] rs = ([], rs)"
| "shuffle_levels ((lv, levelStudents) # rest) rs =
     (case random_sort levelStudents rs of (shuffled, rs') \<Rightarrow>
       (case shuffle_levels rest rs' of (rest', rs'') \<Rightarrow>
         ((lv, shuffled) # rest', rs'')))"

subsection \<open>The state of the pick loop\<close>

record state =
  byLevel :: "(sref list) jsmap"
  result :: "sref list"
  levelCooldown :: "int jsmap"
  roomCooldown :: "int jsmap"
  rand :: rnd

definition LEVEL_COOLDOWN :: int where
  "LEVEL_COOLDOWN = 5"

text \<open>The template string \<^verbatim>\<open>`${level}-${s.room}`\<close>.\<close>

definition room_key :: "string \<Rightarrow> string \<Rightarrow> string" where
  "room_key lv rm = lv @ ''-'' @ rm"

text \<open>\<^verbatim>\<open>roomsPerLevel.get(level)?.size || 1\<close>.\<close>

definition room_count :: "(string list) jsmap \<Rightarrow> string \<Rightarrow> int" where
  "room_count roomsPerLevel lv =
     (case map_of roomsPerLevel lv of
        None \<Rightarrow> 1
      | Some rooms \<Rightarrow> if length rooms = 0 then 1 else int (length rooms))"

subsection \<open>One iteration: the candidate levels\<close>

text \<open>All levels that have students and are not on cooldown.\<close>

definition available_levels :: "(sref list) jsmap \<Rightarrow> int jsmap \<Rightarrow> string list" where
  "available_levels bl lc =
     map fst (filter (\<lambda>(lv, levelStudents). levelStudents \<noteq> [] \<and> get_or_0 lc lv \<le> 0) bl)"

text \<open>
  The search for the level with the lowest cooldown. The pair is
  \<^verbatim>\<open>(minCooldown, bestLevel)\<close>; \<^verbatim>\<open>Infinity\<close> and \<^verbatim>\<open>null\<close> are \<open>None\<close>.
\<close>

fun lowest_level :: "(sref list) jsmap \<Rightarrow> int jsmap \<Rightarrow> int option \<times> string option
    \<Rightarrow> int option \<times> string option" where
  "lowest_level [] lc acc = acc"
| "lowest_level ((lv, levelStudents) # rest) lc (minCooldown, bestLevel) =
     (if levelStudents = [] then lowest_level rest lc (minCooldown, bestLevel)
      else if (case minCooldown of None \<Rightarrow> True | Some m \<Rightarrow> get_or_0 lc lv < m)
        then lowest_level rest lc (Some (get_or_0 lc lv), Some lv)
        else lowest_level rest lc (minCooldown, bestLevel))"

text \<open>
  The levels to try, before they are shuffled; \<open>None\<close> is the \<^verbatim>\<open>break\<close> of the branch
  commented "No more students".
\<close>

definition candidate_levels :: "state \<Rightarrow> string list option" where
  "candidate_levels st =
     (let availableLevels = available_levels (byLevel st) (levelCooldown st)
      in if availableLevels = [] then
           (case lowest_level (byLevel st) (levelCooldown st) (None, None) of
              (minCooldown, bestLevel) \<Rightarrow>
                if truthy_string bestLevel then Some [the bestLevel] else None)
         else Some availableLevels)"

subsection \<open>One iteration: the student of a level\<close>

definition valid_students :: "store \<Rightarrow> int jsmap \<Rightarrow> string \<Rightarrow> sref list \<Rightarrow> sref list" where
  "valid_students objs rc lv levelStudents =
     filter (\<lambda>s. get_or_0 rc (room_key lv (room (objs s))) \<le> 0) levelStudents"

text \<open>The fallback search; the pair is \<^verbatim>\<open>(minRoomCooldown, bestStudent)\<close>.\<close>

fun lowest_room :: "store \<Rightarrow> int jsmap \<Rightarrow> string \<Rightarrow> sref list \<Rightarrow> int option \<times> sref option
    \<Rightarrow> int option \<times> sref option" where
  "lowest_room objs rc lv [] acc = acc"
| "lowest_room objs rc lv (s # rest) (minRoomCooldown, bestStudent) =
     (if (case minRoomCooldown of None \<Rightarrow> True
          | Some m \<Rightarrow> get_or_0 rc (room_key lv (room (objs s))) < m)
        then lowest_room objs rc lv rest
               (Some (get_or_0 rc (room_key lv (room (objs s)))), Some s)
        else lowest_room objs rc lv rest (minRoomCooldown, bestStudent))"

text \<open>\<^verbatim>\<open>validStudents\<close> of a level after the fallback.\<close>

definition students_to_pick :: "store \<Rightarrow> int jsmap \<Rightarrow> string \<Rightarrow> sref list \<Rightarrow> sref list" where
  "students_to_pick objs rc lv levelStudents =
     (let validStudents = valid_students objs rc lv levelStudents
      in if validStudents = [] then
           (case lowest_room objs rc lv levelStudents (None, None) of
              (minRoomCooldown, bestStudent) \<Rightarrow>
                (case bestStudent of None \<Rightarrow> [] | Some b \<Rightarrow> [b]))
         else validStudents)"

text \<open>
  The loop "Try each available level". The result is the pair
  \<^verbatim>\<open>(selectedStudent, selectedLevel)\<close> and the rest of the random source.
  \<^verbatim>\<open>byLevel.get(level)!\<close> of a level that is not a key would be \<^verbatim>\<open>undefined\<close>, and the call of
  \<^verbatim>\<open>filter\<close> on it a \<^verbatim>\<open>TypeError\<close>. The room count and the cooldown duration that the loop
  body computes are not used in it.
\<close>

fun try_levels :: "store \<Rightarrow> (sref list) jsmap \<Rightarrow> int jsmap \<Rightarrow> string list \<Rightarrow> rnd
    \<Rightarrow> js_error + ((sref option \<times> string option) \<times> rnd)" where
  "try_levels objs bl rc [] rs = Inr ((None, None), rs)"
| "try_levels objs bl rc (lv # rest) rs =
     (case map_of bl lv of
        None \<Rightarrow> Inl TypeError
      | Some levelStudents \<Rightarrow>
          (let validStudents = students_to_pick objs rc lv levelStudents
           in if validStudents \<noteq> [] then
                (case random_index (length validStudents) rs of (randomIndex, rs') \<Rightarrow>
                   Inr ((Some (validStudents ! randomIndex), Some lv), rs'))
              else try_levels objs bl rc rest rs))"

subsection \<open>One iteration: emergency fallback and commit\<close>

text \<open>The condition \<^verbatim>\<open>!selectedStudent || !selectedLevel\<close>.\<close>

definition nothing_selected :: "sref option \<times> string option \<Rightarrow> bool" where
  "nothing_selected sel = (\<not> truthy_object (fst sel) \<or> \<not> truthy_string (snd sel))"

text \<open>Emergency fallback: the first student of the first bucket that is not empty.\<close>

fun emergency_fallback :: "(sref list) jsmap \<Rightarrow> sref option \<times> string option
    \<Rightarrow> sref option \<times> string option" where
  "emergency_fallback [] sel = sel"
| "emergency_fallback ((lv, levelStudents) # rest) sel =
     (if levelStudents \<noteq> [] then (Some (hd levelStudents), Some lv)
      else emergency_fallback rest sel)"

text \<open>The decrement of every cooldown but the one just set.\<close>

definition decrease_cooldowns :: "string \<Rightarrow> int jsmap \<Rightarrow> int jsmap" where
  "decrease_cooldowns k m = map (\<lambda>(key, cd). if key \<noteq> k then (key, max (cd - 1) 0) else (key, cd)) m"

text \<open>
  The commit of a pick, from "Add to result" to the end of the loop body.
  \<^verbatim>\<open>byLevel.get(selectedLevel)!\<close> of a level that is not a key would again end in a
  \<^verbatim>\<open>TypeError\<close>.
\<close>

definition commit :: "store \<Rightarrow> (string list) jsmap \<Rightarrow> state \<Rightarrow> sref \<Rightarrow> string \<Rightarrow> rnd
    \<Rightarrow> js_error + state" where
  "commit objs roomsPerLevel st selectedStudent selectedLevel rs =
     (case map_of (byLevel st) selectedLevel of
        None \<Rightarrow> Inl TypeError
      | Some levelStudents \<Rightarrow>
          (let idx = indexOf levelStudents selectedStudent;
               roomCount = room_count roomsPerLevel selectedLevel;
               roomKey = room_key selectedLevel (room (objs selectedStudent))
           in Inr \<lparr> byLevel = AList.update selectedLevel (splice1 idx levelStudents) (byLevel st),
                    result = result st @ [selectedStudent],
                    levelCooldown = decrease_cooldowns selectedLevel
                      (AList.update selectedLevel LEVEL_COOLDOWN (levelCooldown st)),
                    roomCooldown = decrease_cooldowns roomKey
                      (AList.update roomKey (max (roomCount - 1) 0) (roomCooldown st)),
                    rand = rs \<rparr>))"

subsection \<open>The loop\<close>

datatype outcome = Next state | Break | Raise js_error

text \<open>
  The selection of an iteration: \<open>None\<close> when the iteration breaks before it, otherwise
  what the loop over the candidate levels selected.
\<close>

definition selection :: "store \<Rightarrow> state
    \<Rightarrow> (js_error + ((sref option \<times> string option) \<times> rnd)) option" where
  "selection objs st =
     (case candidate_levels st of
        None \<Rightarrow> None
      | Some availableLevels \<Rightarrow>
          (case random_sort availableLevels (rand st) of (shuffled, rs) \<Rightarrow>
             Some (try_levels objs (byLevel st) (roomCooldown st) shuffled rs)))"

text \<open>
  The selection after the emergency fallback, which runs when the loop over the candidate
  levels left the student or the level falsy.
\<close>

definition chosen :: "store \<Rightarrow> state
    \<Rightarrow> (js_error + ((sref option \<times> string option) \<times> rnd)) option" where
  "chosen objs st =
     (case selection objs st of
        None \<Rightarrow> None
      | Some (Inl e) \<Rightarrow> Some (Inl e)
      | Some (Inr (sel, rs)) \<Rightarrow>
          Some (Inr (if nothing_selected sel then emergency_fallback (byLevel st) sel else sel,
                     rs)))"

text \<open>
  One iteration of the \<^verbatim>\<open>while\<close> loop: it breaks, raises, or commits the chosen student and
  goes on with the next state.
\<close>

definition iteration :: "store \<Rightarrow> (string list) jsmap \<Rightarrow> state \<Rightarrow> outcome" where
  "iteration objs roomsPerLevel st =
     (case chosen objs st of
        None \<Rightarrow> Break
      | Some (Inl e) \<Rightarrow> Raise e
      | Some (Inr (sel, rs)) \<Rightarrow>
          if nothing_selected sel then Break
          else (case commit objs roomsPerLevel st (the (fst sel)) (the (snd sel)) rs of
                  Inl e \<Rightarrow> Raise e
                | Inr st' \<Rightarrow> Next st'))"

lemma commit_result:
  "commit objs rpl st s lv rs = Inr st' \<Longrightarrow> result st' = result st @ [s]"
  by (auto simp: commit_def Let_def split: option.splits)

lemma iteration_length:
  "iteration objs rpl st = Next st' \<Longrightarrow> length (result st') = Suc (length (result st))"
  by (auto simp: iteration_def dest!: commit_result
      split: option.splits sum.splits prod.splits if_splits)

function pick_loop :: "store \<Rightarrow> (string list) jsmap \<Rightarrow> nat \<Rightarrow> state \<Rightarrow> js_error + sref list" where
  "pick_loop objs roomsPerLevel n st =
     (if length (result st) < n then
        (case iteration objs roomsPerLevel st of
           Next st' \<Rightarrow> pick_loop objs roomsPerLevel n st'
         | Break \<Rightarrow> Inr (result st)
         | Raise e \<Rightarrow> Inl e)
      else Inr (result st))"
  by pat_completeness auto
termination
  by (relation "measure (\<lambda>(objs, rpl, n, st). n - length (result st))")
     (auto dest: iteration_length)

definition initial_state :: "store \<Rightarrow> sref list \<Rightarrow> rnd \<Rightarrow> state" where
  "initial_state objs students rs =
     (case shuffle_levels (group_by_level objs students []) rs of (bl, rs') \<Rightarrow>
        \<lparr> byLevel = bl, result = [], levelCooldown = [], roomCooldown = [], rand = rs' \<rparr>)"

definition fairDistributionShuffle :: "store \<Rightarrow> rnd \<Rightarrow> sref list \<Rightarrow> js_error + sref list" where
  "fairDistributionShuffle objs rs students =
     (if length students \<le> 2 then Inr students
      else pick_loop objs (rooms_per_level objs students []) (length students)
             (initial_state objs students rs))"

subsection \<open>Observations of a run\<close>

text \<open>
  The states in which the iterations of the loop start, in order. The last of them is the
  state of the iteration that breaks or raises, when there is one.
\<close>

function loop_states :: "store \<Rightarrow> (string list) jsmap \<Rightarrow> nat \<Rightarrow> state \<Rightarrow> state list" where
  "loop_states objs roomsPerLevel n st =
     (if length (result st) < n then
        st # (case iteration objs roomsPerLevel st of
                Next st' \<Rightarrow> loop_states objs roomsPerLevel n st'
              | Break \<Rightarrow> []
              | Raise e \<Rightarrow> [])
      else [])"
  by pat_completeness auto
termination
  by (relation "measure (\<lambda>(objs, rpl, n, st). n - length (result st))")
     (auto dest: iteration_length)

definition iterations :: "store \<Rightarrow> rnd \<Rightarrow> sref list \<Rightarrow> state list" where
  "iterations objs rs students =
     (if length students \<le> 2 then []
      else loop_states objs (rooms_per_level objs students []) (length students)
             (initial_state objs students rs))"

text \<open>
  What an iteration that starts in a state commits: the student and the level of the
  pick, when the iteration neither breaks nor raises.
\<close>

definition picked :: "store \<Rightarrow> state \<Rightarrow> (sref \<times> string) option" where
  "picked objs st =
     (case chosen objs st of
        Some (Inr (sel, rs)) \<Rightarrow>
          if nothing_selected sel then None else Some (the (fst sel), the (snd sel))
      | _ \<Rightarrow> None)"

text \<open>Whether the iteration that starts in a state enters the emergency fallback.\<close>

definition emergency_taken :: "store \<Rightarrow> state \<Rightarrow> bool" where
  "emergency_taken objs st =
     (case selection objs st of
        Some (Inr (sel, rs)) \<Rightarrow> nothing_selected sel
      | _ \<Rightarrow> False)"

subsection \<open>The invariant of the loop\<close>

text \<open>
  The keys of \<^verbatim>\<open>byLevel\<close> are distinct, every bucket holds students of its own level, and
  the result together with the students that remain in the buckets is the pool.
\<close>

definition bucket_levels :: "store \<Rightarrow> (sref list) jsmap \<Rightarrow> bool" where
  "bucket_levels objs bl = (\<forall>(lv, b) \<in> set bl. \<forall>s \<in> set b. level (objs s) = lv)"

definition remaining :: "(sref list) jsmap \<Rightarrow> sref list" where
  "remaining bl = concat (map snd bl)"

definition loop_inv :: "store \<Rightarrow> sref list \<Rightarrow> state \<Rightarrow> bool" where
  "loop_inv objs students st =
     (distinct (map fst (byLevel st)) \<and> bucket_levels objs (byLevel st) \<and>
      mset (result st) + mset (remaining (byLevel st)) = mset students)"


declare pick_loop.simps [simp del] loop_states.simps [simp del]

subsection \<open>Forced fallbacks, and students for examples\<close>

text \<open>
  The level fallback: no level that has students is off cooldown, so the level with the
  lowest cooldown is the only candidate. The room fallback: in the level of the pick, no
  student's room is off cooldown, so the student with the lowest room cooldown is taken.
\<close>

definition level_fallback :: "state \<Rightarrow> bool" where
  "level_fallback st = (available_levels (byLevel st) (levelCooldown st) = [])"

definition room_fallback :: "store \<Rightarrow> state \<Rightarrow> bool" where
  "room_fallback objs st =
     (case picked objs st of
        None \<Rightarrow> False
      | Some (s, lv) \<Rightarrow>
          valid_students objs (roomCooldown st) lv
            (case map_of (byLevel st) lv of None \<Rightarrow> [] | Some b \<Rightarrow> b) = [])"

text \<open>A student of a level and a room; the other fields do not matter to the shuffle.\<close>

definition pupil :: "string \<Rightarrow> string \<Rightarrow> Student" where
  "pupil lv rm = \<lparr> id' = 0, level = lv, room = rm, number = ''1'', name = ''n'', is_winner = False \<rparr>"

subsection \<open>Room counts and cooldown bounds\<close>

text \<open>
  The number of distinct rooms of a level in the pool, the cooldown window of its rooms, and
  the bounds on the values of the two cooldown maps.
\<close>

definition roomCount :: "store \<Rightarrow> sref list \<Rightarrow> string \<Rightarrow> nat" where
  "roomCount objs students lv =
     card ((\<lambda>s. room (objs s)) ` {s \<in> set students. level (objs s) = lv})"

definition room_window :: "store \<Rightarrow> sref list \<Rightarrow> string \<Rightarrow> int" where
  "room_window objs students lv = max (int (roomCount objs students lv) - 1) 0"





definition lookup_rooms :: "(string list) jsmap \<Rightarrow> string \<Rightarrow> string list" where
  "lookup_rooms m k = (case map_of m k of None \<Rightarrow> [] | Some v \<Rightarrow> v)"

subsection \<open>Pools for examples\<close>


definition one_level_pool :: store where
  "one_level_pool r =
     (if r < 2 then pupil ''L'' ''A'' else if r < 4 then pupil ''L'' ''B''
      else pupil ''L'' ''C'')"

definition six_level_pool :: store where
  "six_level_pool r =
     (if r < 2 then pupil ''L'' ''A'' else if r < 4 then pupil ''L'' ''B''
      else if r < 6 then pupil ''L'' ''C''
      else if r = 6 \<or> r = 11 then pupil ''M1'' ''R''
      else if r = 7 \<or> r = 12 then pupil ''M2'' ''R''
      else if r = 8 \<or> r = 13 then pupil ''M3'' ''R''
      else if r = 9 \<or> r = 14 then pupil ''M4'' ''R''
      else pupil ''M5'' ''R'')"

section \<open>The shuffle on a heap of arrays\<close>

text \<open>
  The function above computes with the contents of arrays. To say what a call does to the
  arrays and objects it was given, the same statements are run on a heap: every
  \<^verbatim>\<open>Student[]\<close> that can be shared (the input array, the arrays of \<^verbatim>\<open>byLevel\<close>, the result
  array) lives at an address, \<^verbatim>\<open>[]\<close> allocates a fresh address, and \<^verbatim>\<open>push\<close>, \<^verbatim>\<open>sort\<close> and
  \<^verbatim>\<open>splice\<close> write to the array at an address. The \<^verbatim>\<open>Student\<close> objects are in the heap as
  well, and no statement of the function assigns to a field of one. The arrays that never
  leave an iteration (\<^verbatim>\<open>availableLevels\<close>, \<^verbatim>\<open>validStudents\<close>), the set of rooms and the two
  cooldown maps are values of the call as before.
\<close>

type_synonym addr = nat

record heap =
  objects :: store
  arrays :: "addr \<Rightarrow> sref list"
  next_addr :: addr

definition new_array :: "heap \<Rightarrow> addr \<times> heap" where
  "new_array h =
     (next_addr h, h\<lparr> arrays := (arrays h)(next_addr h := []), next_addr := Suc (next_addr h) \<rparr>)"

definition array_push :: "addr \<Rightarrow> sref \<Rightarrow> heap \<Rightarrow> heap" where
  "array_push a x h = h\<lparr> arrays := (arrays h)(a := arrays h a @ [x]) \<rparr>"

definition array_sort :: "addr \<Rightarrow> rnd \<Rightarrow> heap \<Rightarrow> heap \<times> rnd" where
  "array_sort a rs h =
     (case random_sort (arrays h a) rs of (shuffled, rs') \<Rightarrow>
        (h\<lparr> arrays := (arrays h)(a := shuffled) \<rparr>, rs'))"

definition array_splice1 :: "addr \<Rightarrow> int \<Rightarrow> heap \<Rightarrow> heap" where
  "array_splice1 a idx h = h\<lparr> arrays := (arrays h)(a := splice1 idx (arrays h a)) \<rparr>"

text \<open>
  The first loop: \<^verbatim>\<open>byLevel.get(student.level) || []\<close> is the array of the level or a fresh
  one, the student is pushed onto it, and the map is set to it. The loop reads the input
  array as it is when the loop starts.
\<close>

fun group_by_level_h :: "sref list \<Rightarrow> addr jsmap \<Rightarrow> heap \<Rightarrow> addr jsmap \<times> heap" where
  "group_by_level_h [] bl h = (bl, h)"
| "group_by_level_h (student # rest) bl h =
     (case (case map_of bl (level (objects h student)) of
              None \<Rightarrow> new_array h
            | Some a \<Rightarrow> (a, h)) of
        (levelStudents, h1) \<Rightarrow>
          group_by_level_h rest (AList.update (level (objects h student)) levelStudents bl)
            (array_push levelStudents student h1))"

text \<open>
  The third loop: \<^verbatim>\<open>sort\<close> sorts the array of the level in place and returns it, so
  \<^verbatim>\<open>byLevel.set\<close> stores the address that is there already.
\<close>

fun shuffle_levels_h :: "addr jsmap \<Rightarrow> rnd \<Rightarrow> heap \<Rightarrow> heap \<times> rnd" where
  "shuffle_levels_h [] rs h = (h, rs)"
| "shuffle_levels_h ((lv, levelStudents) # rest) rs h =
     (case array_sort levelStudents rs h of (h1, rs1) \<Rightarrow> shuffle_levels_h rest rs1 h1)"

text \<open>
  The state of the loop on the heap: \<^verbatim>\<open>byLevel\<close> maps a level to the address of its array
  and \<^verbatim>\<open>result\<close> is an address. Its view is the loop state of the function on lists, read
  from the heap.
\<close>

record hstate =
  bucket_of :: "addr jsmap"
  result_at :: addr
  level_cd :: "int jsmap"
  room_cd :: "int jsmap"
  rand_h :: rnd

definition view :: "heap \<Rightarrow> hstate \<Rightarrow> state" where
  "view h hs =
     \<lparr> byLevel = map (\<lambda>(lv, a). (lv, arrays h a)) (bucket_of hs),
       result = arrays h (result_at hs),
       levelCooldown = level_cd hs, roomCooldown = room_cd hs, rand = rand_h hs \<rparr>"

text \<open>
  The commit writes twice: \<^verbatim>\<open>result.push\<close> and \<^verbatim>\<open>levelStudents.splice\<close>. Everything before
  it in an iteration only reads the arrays of the levels, so the choice of an iteration is
  the choice of the function on lists in the view of the heap.
\<close>

definition commit_h :: "(string list) jsmap \<Rightarrow> hstate \<Rightarrow> sref \<Rightarrow> string \<Rightarrow> rnd \<Rightarrow> heap
    \<Rightarrow> js_error + (hstate \<times> heap)" where
  "commit_h roomsPerLevel hs selectedStudent selectedLevel rs h =
     (let h1 = array_push (result_at hs) selectedStudent h
      in case map_of (bucket_of hs) selectedLevel of
           None \<Rightarrow> Inl TypeError
         | Some levelStudents \<Rightarrow>
             (let idx = indexOf (arrays h1 levelStudents) selectedStudent;
                  h2 = array_splice1 levelStudents idx h1;
                  roomCount = room_count roomsPerLevel selectedLevel;
                  roomKey = room_key selectedLevel (room (objects h2 selectedStudent))
              in Inr (hs\<lparr> level_cd := decrease_cooldowns selectedLevel
                                (AList.update selectedLevel LEVEL_COOLDOWN (level_cd hs)),
                            room_cd := decrease_cooldowns roomKey
                                (AList.update roomKey (max (roomCount - 1) 0) (room_cd hs)),
                            rand_h := rs \<rparr>, h2)))"

datatype houtcome = HNext hstate heap | HBreak | HRaise js_error

definition iteration_h :: "(string list) jsmap \<Rightarrow> hstate \<Rightarrow> heap \<Rightarrow> houtcome" where
  "iteration_h roomsPerLevel hs h =
     (case chosen (objects h) (view h hs) of
        None \<Rightarrow> HBreak
      | Some (Inl e) \<Rightarrow> HRaise e
      | Some (Inr (sel, rs)) \<Rightarrow>
          if nothing_selected sel then HBreak
          else (case commit_h roomsPerLevel hs (the (fst sel)) (the (snd sel)) rs h of
                  Inl e \<Rightarrow> HRaise e
                | Inr (hs', h') \<Rightarrow> HNext hs' h'))"

text \<open>
  The loop reads \<^verbatim>\<open>result.length\<close> and \<^verbatim>\<open>students.length\<close> from the heap before every
  iteration. With arbitrary addresses it need not end (a result array that is also the
  array of a level would not grow), so not returning is the value \<open>None\<close>.
\<close>

partial_function (option) pick_loop_h :: "(string list) jsmap \<Rightarrow> addr \<Rightarrow> hstate \<Rightarrow> heap
    \<Rightarrow> (js_error + (addr \<times> heap)) option" where
  "pick_loop_h roomsPerLevel students hs h =
     (if length (arrays h (result_at hs)) < length (arrays h students) then
        (case iteration_h roomsPerLevel hs h of
           HNext hs' h' \<Rightarrow> pick_loop_h roomsPerLevel students hs' h'
         | HBreak \<Rightarrow> Some (Inr (result_at hs, h))
         | HRaise e \<Rightarrow> Some (Inl e))
      else Some (Inr (result_at hs, h)))"

declare pick_loop_h.simps [code]

definition fairDistributionShuffle_h :: "rnd \<Rightarrow> addr \<Rightarrow> heap \<Rightarrow> (js_error + (addr \<times> heap)) option" where
  "fairDistributionShuffle_h rs students h =
     (if length (arrays h students) \<le> 2 then Some (Inr (students, h))
      else case group_by_level_h (arrays h students) [] h of (bl, h1) \<Rightarrow>
        (let roomsPerLevel = rooms_per_level (objects h1) (arrays h1 students) []
         in case shuffle_levels_h bl rs h1 of (h2, rs') \<Rightarrow>
              (case new_array h2 of (res, h3) \<Rightarrow>
                 pick_loop_h roomsPerLevel students
                   \<lparr> bucket_of = bl, result_at = res, level_cd = [], room_cd = [], rand_h = rs' \<rparr>
                   h3)))"

subsection \<open>Well-formed heaps\<close>

text \<open>
  The contents of the arrays of the levels; the arrays of the levels are distinct arrays,
  allocated during the call (at or above the allocation pointer \<open>n0\<close> of its start); a heap
  in which everything allocated before the call, and every object, is as it was; and the
  result array is an array of the call that is not the array of a level. Two stores give
  the same groups to a pool when its students have the same level and room in both.
\<close>

definition contents :: "heap \<Rightarrow> addr jsmap \<Rightarrow> (sref list) jsmap" where
  "contents h bl = map (\<lambda>(lv, a). (lv, arrays h a)) bl"

definition buckets_ok :: "addr \<Rightarrow> heap \<Rightarrow> addr jsmap \<Rightarrow> bool" where
  "buckets_ok n0 h bl =
     (distinct (map fst bl) \<and> distinct (map snd bl) \<and>
      (\<forall>a \<in> snd ` set bl. n0 \<le> a \<and> a < next_addr h))"

definition unchanged_below :: "addr \<Rightarrow> heap \<Rightarrow> heap \<Rightarrow> bool" where
  "unchanged_below n0 h h' =
     (objects h' = objects h \<and> (\<forall>a < n0. arrays h' a = arrays h a) \<and> next_addr h \<le> next_addr h')"

definition heap_ok :: "addr \<Rightarrow> heap \<Rightarrow> hstate \<Rightarrow> bool" where
  "heap_ok n0 h hs =
     (buckets_ok n0 h (bucket_of hs) \<and> n0 \<le> result_at hs \<and>
      result_at hs \<notin> snd ` set (bucket_of hs))"

definition same_groups :: "sref list \<Rightarrow> store \<Rightarrow> store \<Rightarrow> bool" where
  "same_groups students objs objs' =
     (\<forall>s \<in> set students. level (objs s) = level (objs' s) \<and> room (objs s) = room (objs' s))"

subsection \<open>Heaps for examples\<close>

definition example_heap :: heap where
  "example_heap =
     \<lparr> objects = one_level_pool, arrays = (\<lambda>a. [])(0 := [0, 1, 2, 3, 4, 5]), next_addr = 1 \<rparr>"

definition other_heap :: heap where
  "other_heap =
     \<lparr> objects = (\<lambda>r. (one_level_pool r)\<lparr> id' := int r + 100, name := ''m'', is_winner := (r = 7) \<rparr>),
       arrays = (\<lambda>a. [])(0 := [7, 8], 1 := [2, 1, 0], 2 := [0, 1, 2, 3, 4, 5], 4 := [9]),
       next_addr = 5 \<rparr>"

section \<open>Properties of the setup\<close>

lemma random_index_less: "0 < n \<Longrightarrow> fst (random_index n rs) < n"
  by (cases rs) (simp_all add: random_index_def)

lemma mset_remove_nth: "i < length xs \<Longrightarrow> add_mset (xs ! i) (mset (take i xs @ drop (Suc i) xs)) = mset xs"
  by (metis append_take_drop_id Cons_nth_drop_Suc mset.simps(2) mset_append union_mset_add_mset_right)

lemma random_perm_mset:
  "length xs = k \<Longrightarrow> mset (fst (random_perm k xs rs)) = mset xs"
proof (induction k arbitrary: xs rs)
  case 0
  then show ?case by simp
next
  case (Suc k)
  then have ne: "xs \<noteq> []" by auto
  obtain i rs' where ri: "random_index (length xs) rs = (i, rs')" by (cases "random_index (length xs) rs")
  have il: "i < length xs" using random_index_less [of "length xs" rs] ne ri by simp
  then have len: "length (take i xs @ drop (Suc i) xs) = k" using Suc.prems by simp
  obtain ys rs'' where rp: "random_perm k (take i xs @ drop (Suc i) xs) rs' = (ys, rs'')"
    by (cases "random_perm k (take i xs @ drop (Suc i) xs) rs'")
  have "mset ys = mset (take i xs @ drop (Suc i) xs)" using Suc.IH [OF len, of rs'] rp by simp
  then show ?case using ne ri rp mset_remove_nth [OF il] by simp
qed

lemma random_sort_mset: "mset (fst (random_sort xs rs)) = mset xs"
  by (simp add: random_sort_def random_perm_mset)

lemma random_sort_set: "set (fst (random_sort xs rs)) = set xs"
  by (metis random_sort_mset set_mset_mset)

lemma random_sort_Nil: "fst (random_sort xs rs) = [] \<longleftrightarrow> xs = []"
  by (metis random_sort_mset mset_zero_iff)


lemma update_absent: "k \<notin> fst ` set bl \<Longrightarrow> AList.update k v bl = bl @ [(k, v)]"
  by (induction bl) auto

lemma map_of_absent: "map_of bl k = None \<longleftrightarrow> k \<notin> fst ` set bl"
  by (simp add: map_of_eq_None_iff)

lemma remaining_update_present:
  "map_of bl k = Some b \<Longrightarrow>
   mset (remaining (AList.update k b' bl)) + mset b = mset (remaining bl) + mset b'"
proof (induction bl)
  case Nil
  then show ?case by simp
next
  case (Cons p bl)
  then show ?case by (cases p) (auto simp: remaining_def split: if_splits)
qed

lemma remaining_update_absent:
  "map_of bl k = None \<Longrightarrow> mset (remaining (AList.update k b' bl)) = mset (remaining bl) + mset b'"
  by (simp add: map_of_absent update_absent remaining_def)

lemma bucket_levels_update:
  "bucket_levels objs bl \<Longrightarrow> \<forall>s \<in> set b'. level (objs s) = k \<Longrightarrow>
   bucket_levels objs (AList.update k b' bl)"
  by (induction bl) (auto simp: bucket_levels_def)

lemma bucket_levels_lookup:
  "bucket_levels objs bl \<Longrightarrow> map_of bl k = Some b \<Longrightarrow> s \<in> set b \<Longrightarrow> level (objs s) = k"
  by (auto simp: bucket_levels_def dest: map_of_SomeD)

lemma group_by_level_distinct:
  "distinct (map fst bl) \<Longrightarrow> distinct (map fst (group_by_level objs ss bl))"
  by (induction ss arbitrary: bl) (simp_all add: Let_def distinct_update)

lemma group_by_level_remaining:
  "mset (remaining (group_by_level objs ss bl)) = mset (remaining bl) + mset ss"
proof (induction ss arbitrary: bl)
  case Nil
  then show ?case by simp
next
  case (Cons s ss)
  show ?case
  proof (cases "map_of bl (level (objs s))")
    case None
    then show ?thesis using Cons.IH remaining_update_absent [OF None] by simp
  next
    case (Some b)
    have "mset (remaining (AList.update (level (objs s)) (b @ [s]) bl)) + mset b
        = mset (remaining bl) + mset (b @ [s])"
      by (rule remaining_update_present [OF Some])
    then have "mset (remaining (AList.update (level (objs s)) (b @ [s]) bl))
        = mset (remaining bl) + {#s#}" by simp
    then show ?thesis using Some Cons.IH by simp
  qed
qed

lemma group_by_level_bucket_levels:
  "bucket_levels objs bl \<Longrightarrow> bucket_levels objs (group_by_level objs ss bl)"
proof (induction ss arbitrary: bl)
  case Nil
  then show ?case by simp
next
  case (Cons s ss)
  have "bucket_levels objs (AList.update (level (objs s))
          ((case map_of bl (level (objs s)) of None \<Rightarrow> [] | Some b \<Rightarrow> b) @ [s]) bl)"
  proof (rule bucket_levels_update [OF Cons.prems], rule ballI)
    fix x assume "x \<in> set ((case map_of bl (level (objs s)) of None \<Rightarrow> [] | Some b \<Rightarrow> b) @ [s])"
    then show "level (objs x) = level (objs s)"
      using bucket_levels_lookup [OF Cons.prems, of "level (objs s)"]
      by (cases "map_of bl (level (objs s))") auto
  qed
  then show ?case using Cons.IH by (simp add: Let_def)
qed

lemma group_by_level_keys:
  "fst ` set (group_by_level objs ss bl) = fst ` set bl \<union> (\<lambda>s. level (objs s)) ` set ss"
  by (induction ss arbitrary: bl) (auto simp: Let_def dom_update)

lemma shuffle_levels_keys: "map fst (fst (shuffle_levels bl rs)) = map fst bl"
  by (induction bl rs rule: shuffle_levels.induct) (auto split: prod.splits)

lemma shuffle_levels_remaining:
  "mset (remaining (fst (shuffle_levels bl rs))) = mset (remaining bl)"
proof (induction bl rs rule: shuffle_levels.induct)
  case (1 rs)
  then show ?case by simp
next
  case (2 lv levelStudents rest rs)
  obtain sh rs' where a: "random_sort levelStudents rs = (sh, rs')" by (cases "random_sort levelStudents rs")
  obtain rest' rs'' where b: "shuffle_levels rest rs' = (rest', rs'')" by (cases "shuffle_levels rest rs'")
  have "mset sh = mset levelStudents" using random_sort_mset [of levelStudents rs] a by simp
  moreover have "mset (remaining rest') = mset (remaining rest)" using 2 a b by simp
  ultimately show ?case using a b by (simp add: remaining_def)
qed

lemma shuffle_levels_bucket_levels:
  "bucket_levels objs bl \<Longrightarrow> bucket_levels objs (fst (shuffle_levels bl rs))"
proof (induction bl rs rule: shuffle_levels.induct)
  case (1 rs)
  then show ?case by simp
next
  case (2 lv levelStudents rest rs)
  obtain sh rs' where a: "random_sort levelStudents rs = (sh, rs')" by (cases "random_sort levelStudents rs")
  obtain rest' rs'' where b: "shuffle_levels rest rs' = (rest', rs'')" by (cases "shuffle_levels rest rs'")
  have "set sh = set levelStudents" using random_sort_set [of levelStudents rs] a by simp
  moreover have "bucket_levels objs rest'" using 2 a b by (simp add: bucket_levels_def)
  ultimately show ?case using a b "2.prems" by (simp add: bucket_levels_def)
qed

lemma initial_state_inv: "loop_inv objs students (initial_state objs students rs)"
proof -
  obtain bl rs' where a: "shuffle_levels (group_by_level objs students []) rs = (bl, rs')"
    by (cases "shuffle_levels (group_by_level objs students []) rs")
  have "map fst bl = map fst (group_by_level objs students [])"
    using shuffle_levels_keys [of "group_by_level objs students []" rs] a by simp
  then have d: "distinct (map fst bl)" using group_by_level_distinct [of "[]" objs students] by simp
  have b: "bucket_levels objs bl"
    using shuffle_levels_bucket_levels [OF group_by_level_bucket_levels, of objs "[]" students rs] a
    by (simp add: bucket_levels_def)
  have "mset (remaining bl) = mset students"
    using shuffle_levels_remaining [of "group_by_level objs students []" rs] a
      group_by_level_remaining [of objs students "[]"]
    by (simp add: remaining_def)
  then show ?thesis using a d b by (simp add: loop_inv_def initial_state_def)
qed

section \<open>Properties of one iteration\<close>

lemma available_levels_iff:
  "lv \<in> set (available_levels bl lc) \<longleftrightarrow>
   (\<exists>b. (lv, b) \<in> set bl \<and> b \<noteq> [] \<and> get_or_0 lc lv \<le> 0)"
  by (force simp: available_levels_def)

lemma lowest_level_spec:
  "lowest_level bl lc (m, best) = (m', best') \<Longrightarrow>
   (case m' of
      None \<Rightarrow> m = None \<and> best' = best \<and> (\<forall>(lv, b) \<in> set bl. b = [])
    | Some c' \<Rightarrow>
        (\<forall>(lv, b) \<in> set bl. b \<noteq> [] \<longrightarrow> c' \<le> get_or_0 lc lv) \<and>
        (\<forall>c. m = Some c \<longrightarrow> c' \<le> c) \<and>
        ((m' = m \<and> best' = best) \<or>
         (\<exists>(lv, b) \<in> set bl. b \<noteq> [] \<and> best' = Some lv \<and> c' = get_or_0 lc lv)))"
proof (induction bl lc "(m, best)" arbitrary: m best rule: lowest_level.induct)
  case (1 lc)
  then show ?case by (auto split: option.splits)
next
  case (2 lv levelStudents rest lc minCooldown bestLevel)
  show ?case
  proof (cases "levelStudents = []")
    case True
    then show ?thesis using 2 by (auto split: option.splits)
  next
    case ne: False
    show ?thesis
    proof (cases "case minCooldown of None \<Rightarrow> True | Some m \<Rightarrow> get_or_0 lc lv < m")
      case True
      then have "lowest_level rest lc (Some (get_or_0 lc lv), Some lv) = (m', best')"
        using "2.prems" ne by simp
      from "2.hyps"(2) [OF ne True this] True ne show ?thesis
        by (auto split: option.splits)
    next
      case False
      then have "lowest_level rest lc (minCooldown, bestLevel) = (m', best')"
        using "2.prems" ne by simp
      from "2.hyps"(3) [OF ne False this] False ne show ?thesis
        by (fastforce split: option.splits)
    qed
  qed
qed

subsection \<open>The candidate levels\<close>

lemma candidate_levels_sound:
  assumes "candidate_levels st = Some lvs"
  shows "lvs \<noteq> [] \<and>
    (\<forall>lv \<in> set lvs. (\<exists>b. (lv, b) \<in> set (byLevel st) \<and> b \<noteq> []) \<and>
       (get_or_0 (levelCooldown st) lv \<le> 0 \<or>
        (\<forall>(lv', b') \<in> set (byLevel st). b' \<noteq> [] \<longrightarrow>
           0 < get_or_0 (levelCooldown st) lv' \<and>
           get_or_0 (levelCooldown st) lv \<le> get_or_0 (levelCooldown st) lv')))"
proof (cases "available_levels (byLevel st) (levelCooldown st) = []")
  case False
  then have "lvs = available_levels (byLevel st) (levelCooldown st)"
    using assms by (simp add: candidate_levels_def)
  then show ?thesis using False by (auto simp: available_levels_iff)
next
  case True
  obtain m best where lo: "lowest_level (byLevel st) (levelCooldown st) (None, None) = (m, best)"
    by (cases "lowest_level (byLevel st) (levelCooldown st) (None, None)")
  have tr: "truthy_string best" and lvs: "lvs = [the best]"
    using assms True lo by (auto simp: candidate_levels_def split: if_splits)
  from tr obtain lv where best: "best = Some lv" by (cases best) auto
  have none_avail: "\<forall>(lv', b') \<in> set (byLevel st). b' \<noteq> [] \<longrightarrow> 0 < get_or_0 (levelCooldown st) lv'"
  proof (clarify)
    fix lv' b' assume "(lv', b') \<in> set (byLevel st)" "b' \<noteq> []"
    then have "get_or_0 (levelCooldown st) lv' \<le> 0 \<Longrightarrow> lv' \<in> set (available_levels (byLevel st) (levelCooldown st))"
      by (auto simp: available_levels_iff)
    then show "0 < get_or_0 (levelCooldown st) lv'" using True by (cases "get_or_0 (levelCooldown st) lv' \<le> 0") auto
  qed
  from lowest_level_spec [OF lo] best
  have "\<exists>c. m = Some c \<and> (\<forall>(lv', b') \<in> set (byLevel st). b' \<noteq> [] \<longrightarrow> c \<le> get_or_0 (levelCooldown st) lv')
      \<and> (\<exists>b. (lv, b) \<in> set (byLevel st) \<and> b \<noteq> [] \<and> c = get_or_0 (levelCooldown st) lv)"
    by (cases m) auto
  then show ?thesis using lvs best none_avail by fastforce
qed

lemma candidate_levels_None:
  assumes "candidate_levels st = None"
  shows "(\<forall>(lv, b) \<in> set (byLevel st). b = []) \<or> (\<exists>b. ([], b) \<in> set (byLevel st))"
proof -
  have av: "available_levels (byLevel st) (levelCooldown st) = []"
    using assms by (auto simp: candidate_levels_def Let_def split: if_splits)
  obtain m best where lo: "lowest_level (byLevel st) (levelCooldown st) (None, None) = (m, best)"
    by (cases "lowest_level (byLevel st) (levelCooldown st) (None, None)")
  have nt: "\<not> truthy_string best" using assms av lo by (auto simp: candidate_levels_def split: if_splits)
  show ?thesis
  proof (cases m)
    case None
    then show ?thesis using lowest_level_spec [OF lo] by auto
  next
    case (Some c)
    then obtain lv b where "(lv, b) \<in> set (byLevel st)" "best = Some lv"
      using lowest_level_spec [OF lo] by auto
    then show ?thesis using nt by auto
  qed
qed

subsection \<open>The students of a level\<close>

lemma lowest_room_spec:
  "lowest_room objs rc lv ss (m, best) = (m', best') \<Longrightarrow>
   (case m' of
      None \<Rightarrow> m = None \<and> best' = best \<and> ss = []
    | Some c' \<Rightarrow>
        (\<forall>s \<in> set ss. c' \<le> get_or_0 rc (room_key lv (room (objs s)))) \<and>
        (\<forall>c. m = Some c \<longrightarrow> c' \<le> c) \<and>
        ((m' = m \<and> best' = best) \<or>
         (\<exists>s \<in> set ss. best' = Some s \<and> c' = get_or_0 rc (room_key lv (room (objs s))))))"
proof (induction objs rc lv ss "(m, best)" arbitrary: m best rule: lowest_room.induct)
  case (1 objs rc lv)
  then show ?case by (auto split: option.splits)
next
  case (2 objs rc lv s rest minRoomCooldown bestStudent)
  show ?case
  proof (cases "case minRoomCooldown of None \<Rightarrow> True
          | Some m \<Rightarrow> get_or_0 rc (room_key lv (room (objs s))) < m")
    case True
    then have "lowest_room objs rc lv rest
        (Some (get_or_0 rc (room_key lv (room (objs s)))), Some s) = (m', best')"
      using "2.prems" by simp
    from "2.hyps"(1) [OF True this] True show ?thesis
      by (auto split: option.splits)
  next
    case False
    then have "lowest_room objs rc lv rest (minRoomCooldown, bestStudent) = (m', best')"
      using "2.prems" by simp
    from "2.hyps"(2) [OF False this] False show ?thesis
      by (fastforce split: option.splits)
  qed
qed

lemma students_to_pick_subset: "set (students_to_pick objs rc lv b) \<subseteq> set b"
proof (cases "valid_students objs rc lv b = []")
  case False
  then show ?thesis by (auto simp: students_to_pick_def valid_students_def)
next
  case True
  obtain m best where lo: "lowest_room objs rc lv b (None, None) = (m, best)"
    by (cases "lowest_room objs rc lv b (None, None)")
  show ?thesis using True lo lowest_room_spec [OF lo]
    by (cases m; cases best) (auto simp: students_to_pick_def)
qed

lemma students_to_pick_nonempty: "b \<noteq> [] \<Longrightarrow> students_to_pick objs rc lv b \<noteq> []"
proof (cases "valid_students objs rc lv b = []")
  case False
  then show ?thesis by (auto simp: students_to_pick_def)
next
  case True
  assume ne: "b \<noteq> []"
  obtain m best where lo: "lowest_room objs rc lv b (None, None) = (m, best)"
    by (cases "lowest_room objs rc lv b (None, None)")
  show ?thesis using True lo lowest_room_spec [OF lo] ne
    by (cases m; cases best) (auto simp: students_to_pick_def)
qed

subsection \<open>The loop over the candidate levels\<close>

lemma try_levels_sound:
  "try_levels objs bl rc lvs rs = Inr ((ss, sl), rs') \<Longrightarrow>
   (ss = None \<and> sl = None \<and> rs' = rs) \<or>
   (\<exists>s lv b. ss = Some s \<and> sl = Some lv \<and> lv \<in> set lvs \<and> map_of bl lv = Some b \<and>
      s \<in> set (students_to_pick objs rc lv b))"
proof (induction lvs)
  case Nil
  then show ?case by simp
next
  case (Cons lv lvs)
  from Cons.prems obtain b where b: "map_of bl lv = Some b" by (cases "map_of bl lv") auto
  show ?case
  proof (cases "students_to_pick objs rc lv b = []")
    case True
    then show ?thesis using Cons b by auto
  next
    case False
    then have "fst (random_index (length (students_to_pick objs rc lv b)) rs)
        < length (students_to_pick objs rc lv b)"
      by (intro random_index_less) simp
    then show ?thesis using Cons.prems b False
      by (auto simp: Let_def split: prod.splits)
  qed
qed

lemma try_levels_first:
  assumes "map_of bl lv = Some b" "b \<noteq> []"
  shows "\<exists>s rs'. try_levels objs bl rc (lv # lvs) rs = Inr ((Some s, Some lv), rs') \<and>
           s \<in> set (students_to_pick objs rc lv b)"
proof -
  have ne: "students_to_pick objs rc lv b \<noteq> []" using assms(2) by (rule students_to_pick_nonempty)
  then have "fst (random_index (length (students_to_pick objs rc lv b)) rs)
        < length (students_to_pick objs rc lv b)"
    by (intro random_index_less) simp
  then show ?thesis using assms ne by (auto simp: Let_def split: prod.splits)
qed

lemma emergency_fallback_spec:
  "emergency_fallback bl sel = sel' \<Longrightarrow>
   (sel' = sel \<and> (\<forall>(lv, b) \<in> set bl. b = [])) \<or>
   (\<exists>(lv, b) \<in> set bl. b \<noteq> [] \<and> sel' = (Some (hd b), Some lv))"
  by (induction bl sel rule: emergency_fallback.induct) (auto split: if_splits)

lemma indexOf_member:
  "x \<in> set xs \<Longrightarrow> 0 \<le> indexOf xs x \<and> nat (indexOf xs x) < length xs \<and> xs ! nat (indexOf xs x) = x"
proof (induction xs)
  case Nil
  then show ?case by simp
next
  case (Cons y ys)
  show ?case
  proof (cases "y = x")
    case True
    then show ?thesis by simp
  next
    case False
    then have "0 \<le> indexOf ys x \<and> nat (indexOf ys x) < length ys \<and> ys ! nat (indexOf ys x) = x"
      using Cons by simp
    then show ?thesis using False by (simp add: Let_def nat_add_distrib)
  qed
qed

lemma splice1_member:
  assumes "x \<in> set xs"
  shows "add_mset x (mset (splice1 (indexOf xs x) xs)) = mset xs"
proof -
  from indexOf_member [OF assms]
  have a: "0 \<le> indexOf xs x" "nat (indexOf xs x) < length xs" "xs ! nat (indexOf xs x) = x"
    by simp_all
  then have "indexOf xs x \<le> int (length xs)" by linarith
  then have "splice1 (indexOf xs x) xs = take (nat (indexOf xs x)) xs @ drop (Suc (nat (indexOf xs x))) xs"
    using a(1) by (simp add: splice1_def Let_def min_def)
  then show ?thesis using mset_remove_nth [OF a(2)] a(3) by simp
qed

lemma splice1_subset: "set (splice1 i xs) \<subseteq> set xs"
  by (auto simp: splice1_def Let_def dest: in_set_takeD in_set_dropD)

lemma map_of_distinct: "distinct (map fst bl) \<Longrightarrow> (k, v) \<in> set bl \<Longrightarrow> map_of bl k = Some v"
  by simp

lemma update_keys_present: "map_of bl k = Some v \<Longrightarrow> map fst (AList.update k v' bl) = map fst bl"
  by (induction bl) (auto split: if_splits)

subsection \<open>What an iteration commits\<close>

lemma iteration_Next:
  "iteration objs rpl st = Next st' \<longleftrightarrow>
   (\<exists>s lv sel rs. chosen objs st = Some (Inr (sel, rs)) \<and> picked objs st = Some (s, lv) \<and>
      commit objs rpl st s lv rs = Inr st')"
  by (auto simp: iteration_def picked_def split: option.splits sum.splits prod.splits if_splits)

lemma chosen_in_bucket:
  assumes "distinct (map fst (byLevel st))" "picked objs st = Some (s, lv)"
  shows "\<exists>b. map_of (byLevel st) lv = Some b \<and> s \<in> set b"
proof -
  from assms(2) obtain sel rs where ch: "chosen objs st = Some (Inr (sel, rs))"
    and ns: "\<not> nothing_selected sel" and sel: "sel = (Some s, Some lv)"
    by (auto simp: picked_def nothing_selected_def split: option.splits sum.splits prod.splits if_splits
        elim!: truthy_object.elims truthy_string.elims)
  from ch obtain sel0 where s0: "selection objs st = Some (Inr (sel0, rs))"
    and em: "sel = (if nothing_selected sel0 then emergency_fallback (byLevel st) sel0 else sel0)"
    by (auto simp: chosen_def split: option.splits sum.splits prod.splits)
  from s0 obtain lvs sh rs0 where cl: "candidate_levels st = Some lvs"
    and tl: "try_levels objs (byLevel st) (roomCooldown st) sh rs0 = Inr (sel0, rs)"
    by (auto simp: selection_def split: option.splits prod.splits)
  show ?thesis
  proof (cases "nothing_selected sel0")
    case False
    then have "sel0 = (Some s, Some lv)" using em sel by simp
    with try_levels_sound [of objs "byLevel st" "roomCooldown st" sh rs0 "Some s" "Some lv" rs] tl
    show ?thesis using students_to_pick_subset by fastforce
  next
    case True
    then have "emergency_fallback (byLevel st) sel0 = (Some s, Some lv)" using em sel by simp
    from emergency_fallback_spec [OF this] True ns sel
    obtain b where "(lv, b) \<in> set (byLevel st)" "b \<noteq> []" "s = hd b" by auto
    then show ?thesis using assms(1) by auto
  qed
qed

lemma commit_inv:
  assumes inv: "loop_inv objs students st"
    and b: "map_of (byLevel st) lv = Some b" "s \<in> set b"
    and c: "commit objs rpl st s lv rs = Inr st'"
  shows "loop_inv objs students st' \<and> map fst (byLevel st') = map fst (byLevel st)"
proof -
  have bl': "byLevel st' = AList.update lv (splice1 (indexOf b s) b) (byLevel st)"
    and res: "result st' = result st @ [s]"
    using c b by (auto simp: commit_def Let_def)
  have keys: "map fst (byLevel st') = map fst (byLevel st)"
    using bl' update_keys_present [OF b(1)] by simp
  have "mset (remaining (byLevel st')) + mset b
      = mset (remaining (byLevel st)) + mset (splice1 (indexOf b s) b)"
    using remaining_update_present [OF b(1)] bl' by simp
  then have "mset (remaining (byLevel st')) + add_mset s (mset (splice1 (indexOf b s) b))
      = mset (remaining (byLevel st)) + mset (splice1 (indexOf b s) b)"
    using splice1_member [OF b(2)] by simp
  then have "add_mset s (mset (remaining (byLevel st'))) = mset (remaining (byLevel st))"
    by simp
  then have m: "mset (result st') + mset (remaining (byLevel st')) = mset students"
    using inv res by (simp add: loop_inv_def) (metis union_mset_add_mset_right)
  have "\<forall>x \<in> set (splice1 (indexOf b s) b). level (objs x) = lv"
    using inv b(1) splice1_subset [of "indexOf b s" b]
    by (auto simp: loop_inv_def dest: bucket_levels_lookup)
  then have bk: "bucket_levels objs (byLevel st')"
    using inv bl' by (simp add: loop_inv_def bucket_levels_update)
  show ?thesis using keys m bk inv by (simp add: loop_inv_def)
qed

lemma iteration_inv:
  assumes "loop_inv objs students st" "iteration objs rpl st = Next st'"
  shows "loop_inv objs students st' \<and> map fst (byLevel st') = map fst (byLevel st)"
proof -
  from assms(2) obtain s lv rs where p: "picked objs st = Some (s, lv)"
    and c: "commit objs rpl st s lv rs = Inr st'"
    by (auto simp: iteration_Next)
  from chosen_in_bucket [OF _ p] assms(1)
  obtain b where "map_of (byLevel st) lv = Some b" "s \<in> set b" by (auto simp: loop_inv_def)
  then show ?thesis using commit_inv [OF assms(1) _ _ c] by simp
qed

section \<open>Properties of the loop\<close>


lemma try_levels_no_error:
  "\<forall>lv \<in> set lvs. map_of bl lv \<noteq> None \<Longrightarrow> try_levels objs bl rc lvs rs \<noteq> Inl e"
  by (induction lvs) (auto simp: Let_def split: option.splits prod.splits)

lemma selection_no_error:
  assumes "distinct (map fst (byLevel st))"
  shows "selection objs st \<noteq> Some (Inl e)"
proof (cases "candidate_levels st")
  case None
  then show ?thesis by (simp add: selection_def)
next
  case (Some lvs)
  obtain sh rs where sh: "random_sort lvs (rand st) = (sh, rs)" by (cases "random_sort lvs (rand st)")
  have "set sh = set lvs" using random_sort_set [of lvs "rand st"] sh by simp
  then have "\<forall>lv \<in> set sh. map_of (byLevel st) lv \<noteq> None"
    using candidate_levels_sound [OF Some] assms by (force simp: map_of_absent)
  then show ?thesis using Some sh try_levels_no_error [of sh "byLevel st" objs "roomCooldown st" rs e]
    by (simp add: selection_def)
qed

lemma iteration_no_error:
  assumes "loop_inv objs students st"
  shows "iteration objs rpl st \<noteq> Raise e"
proof
  assume r: "iteration objs rpl st = Raise e"
  have d: "distinct (map fst (byLevel st))" using assms by (simp add: loop_inv_def)
  have "chosen objs st \<noteq> Some (Inl e)"
    using selection_no_error [OF d, of objs e]
    by (auto simp: chosen_def split: option.splits sum.splits prod.splits)
  with r obtain sel rs where ch: "chosen objs st = Some (Inr (sel, rs))"
    and ns: "\<not> nothing_selected sel"
    and c: "commit objs rpl st (the (fst sel)) (the (snd sel)) rs = Inl e"
    by (auto simp: iteration_def split: option.splits sum.splits prod.splits if_splits)
  then have "picked objs st = Some (the (fst sel), the (snd sel))" by (simp add: picked_def)
  from chosen_in_bucket [OF d this] c show False by (auto simp: commit_def Let_def)
qed

subsection \<open>Progress when no level is the empty string\<close>

lemma selection_progress:
  assumes d: "distinct (map fst (byLevel st))"
    and ne: "[] \<notin> fst ` set (byLevel st)"
    and rem: "remaining (byLevel st) \<noteq> []"
  shows "\<exists>s lv rs. selection objs st = Some (Inr ((Some s, Some lv), rs)) \<and> lv \<noteq> []"
proof -
  have "candidate_levels st \<noteq> None"
  proof
    assume "candidate_levels st = None"
    from candidate_levels_None [OF this] ne rem show False
      by (force simp: remaining_def)
  qed
  then obtain lvs where cl: "candidate_levels st = Some lvs" by auto
  obtain sh rs where sh: "random_sort lvs (rand st) = (sh, rs)" by (cases "random_sort lvs (rand st)")
  have set_sh: "set sh = set lvs" using random_sort_set [of lvs "rand st"] sh by simp
  have "sh \<noteq> []" using random_sort_Nil [of lvs "rand st"] sh candidate_levels_sound [OF cl] by simp
  then obtain lv rest where shc: "sh = lv # rest" by (cases sh) auto
  then have "lv \<in> set lvs" using set_sh by auto
  then obtain b where b: "(lv, b) \<in> set (byLevel st)" "b \<noteq> []"
    using candidate_levels_sound [OF cl] by auto
  then have m: "map_of (byLevel st) lv = Some b" using d by simp
  have "lv \<noteq> []" using b(1) ne by force
  then show ?thesis
    using try_levels_first [OF m b(2), of objs "roomCooldown st" rest rs] cl sh shc
    by (auto simp: selection_def)
qed

lemma iteration_progress:
  assumes inv: "loop_inv objs students st"
    and ne: "[] \<notin> fst ` set (byLevel st)"
    and rem: "remaining (byLevel st) \<noteq> []"
  shows "(\<exists>st'. iteration objs rpl st = Next st') \<and> \<not> emergency_taken objs st"
proof -
  have d: "distinct (map fst (byLevel st))" using inv by (simp add: loop_inv_def)
  from selection_progress [OF d ne rem, of objs]
  obtain s lv rs where sel: "selection objs st = Some (Inr ((Some s, Some lv), rs))" "lv \<noteq> []"
    by auto
  then have ne_sel: "\<not> nothing_selected (Some s, Some lv)" by (simp add: nothing_selected_def)
  then have ch: "chosen objs st = Some (Inr ((Some s, Some lv), rs))"
    using sel by (simp add: chosen_def)
  have em: "\<not> emergency_taken objs st" using sel ne_sel by (simp add: emergency_taken_def)
  have "iteration objs rpl st \<noteq> Break" using ch ne_sel
    by (auto simp: iteration_def split: sum.splits)
  then show ?thesis using iteration_no_error [OF inv, of rpl] em
    by (cases "iteration objs rpl st") auto
qed

lemma loop_inv_length:
  "loop_inv objs students st \<Longrightarrow>
   length (result st) + length (remaining (byLevel st)) = length students"
  by (metis loop_inv_def size_mset size_union)

subsection \<open>The loop as a whole\<close>

lemma pick_loop_general:
  "loop_inv objs students st \<Longrightarrow>
   \<exists>out. pick_loop objs rpl n st = Inr out \<and> mset out \<subseteq># mset students \<and>
     length (result st) \<le> length out \<and> take (length (result st)) out = result st"
proof (induction objs rpl n st rule: pick_loop.induct)
  case (1 objs rpl n st)
  have sub: "mset (result st) \<subseteq># mset students"
    using "1.prems" by (metis loop_inv_def mset_subset_eq_add_left)
  show ?case
  proof (cases "length (result st) < n")
    case False
    then show ?thesis using sub by (simp add: pick_loop.simps [of objs rpl n st])
  next
    case True
    show ?thesis
    proof (cases "iteration objs rpl st")
      case (Next st')
      from iteration_inv [OF "1.prems" Next] have inv': "loop_inv objs students st'" by simp
      from "1.IH" [OF True Next inv'] obtain out where
        o: "pick_loop objs rpl n st' = Inr out" "mset out \<subseteq># mset students"
           "length (result st') \<le> length out" "take (length (result st')) out = result st'"
        by auto
      from Next obtain s lv rs where "commit objs rpl st s lv rs = Inr st'"
        by (auto simp: iteration_Next)
      then have r: "result st' = result st @ [s]" by (rule commit_result)
      have "take (length (result st)) out = take (length (result st)) (take (length (result st')) out)"
        using r by simp
      also have "\<dots> = result st" using o(4) r by simp
      finally show ?thesis using o r True Next
        by (simp add: pick_loop.simps [of objs rpl n st])
    next
      case Break
      then show ?thesis using True sub by (simp add: pick_loop.simps [of objs rpl n st])
    next
      case (Raise e)
      then show ?thesis using iteration_no_error [OF "1.prems"] by simp
    qed
  qed
qed

lemma pick_loop_complete:
  "loop_inv objs students st \<Longrightarrow> [] \<notin> fst ` set (byLevel st) \<Longrightarrow>
   \<exists>out. pick_loop objs rpl (length students) st = Inr out \<and> mset out = mset students"
proof (induction objs rpl "length students" st rule: pick_loop.induct)
  case (1 objs rpl st)
  show ?case
  proof (cases "length (result st) < length students")
    case False
    then have "length (remaining (byLevel st)) = 0" using loop_inv_length [OF "1.prems"(1)] by linarith
    then have "remaining (byLevel st) = []" by simp
    then have "mset (result st) = mset students" using "1.prems"(1) by (simp add: loop_inv_def)
    then show ?thesis using False by (simp add: pick_loop.simps [of objs rpl _ st])
  next
    case True
    then have rem: "remaining (byLevel st) \<noteq> []" using loop_inv_length [OF "1.prems"(1)] by auto
    from iteration_progress [OF "1.prems"(1,2) rem]
    obtain st' where n: "iteration objs rpl st = Next st'" by auto
    from iteration_inv [OF "1.prems"(1) n]
    have inv': "loop_inv objs students st'" and k: "map fst (byLevel st') = map fst (byLevel st)"
      by simp_all
    have "[] \<notin> fst ` set (byLevel st')" using k "1.prems"(2) by (metis set_map)
    from "1.hyps" [OF True n inv' this] show ?thesis using True n
      by (simp add: pick_loop.simps [of objs rpl _ st])
  qed
qed

lemma initial_state_keys:
  "fst ` set (byLevel (initial_state objs students rs)) = (\<lambda>s. level (objs s)) ` set students"
proof -
  obtain bl rs' where a: "shuffle_levels (group_by_level objs students []) rs = (bl, rs')"
    by (cases "shuffle_levels (group_by_level objs students []) rs")
  have "map fst bl = map fst (group_by_level objs students [])"
    using shuffle_levels_keys [of "group_by_level objs students []" rs] a by simp
  then have "fst ` set bl = fst ` set (group_by_level objs students [])" by (metis set_map)
  then show ?thesis using a by (simp add: initial_state_def group_by_level_keys)
qed

lemma shuffle_permutes:
  assumes "\<forall>s \<in> set students. level (objs s) \<noteq> []"
  shows "\<exists>out. fairDistributionShuffle objs rs students = Inr out \<and> mset out = mset students"
proof (cases "length students \<le> 2")
  case True
  then show ?thesis by (simp add: fairDistributionShuffle_def)
next
  case False
  have "[] \<notin> fst ` set (byLevel (initial_state objs students rs))"
    using assms by (auto simp: initial_state_keys)
  from pick_loop_complete [OF initial_state_inv this] False show ?thesis
    by (simp add: fairDistributionShuffle_def)
qed

lemma shuffle_returns:
  "\<exists>out. fairDistributionShuffle objs rs students = Inr out \<and> mset out \<subseteq># mset students"
proof (cases "length students \<le> 2")
  case True
  then show ?thesis by (simp add: fairDistributionShuffle_def)
next
  case False
  from pick_loop_general [OF initial_state_inv] False show ?thesis
    by (fastforce simp: fairDistributionShuffle_def)
qed

lemma loop_states_inv:
  "loop_inv objs students st0 \<Longrightarrow> st \<in> set (loop_states objs rpl n st0) \<Longrightarrow>
   loop_inv objs students st \<and> map fst (byLevel st) = map fst (byLevel st0) \<and>
   length (result st) < n"
proof (induction objs rpl n st0 rule: loop_states.induct)
  case (1 objs rpl n st0)
  show ?case
  proof (cases "length (result st0) < n")
    case False
    then show ?thesis using "1.prems"(2) by (simp add: loop_states.simps [of objs rpl n st0])
  next
    case True
    show ?thesis
    proof (cases "st = st0")
      case True
      then show ?thesis using \<open>length (result st0) < n\<close> "1.prems"(1) by simp
    next
      case False
      then obtain st' where n: "iteration objs rpl st0 = Next st'"
        and m: "st \<in> set (loop_states objs rpl n st')"
        using "1.prems"(2) True
        by (cases "iteration objs rpl st0") (auto simp: loop_states.simps [of objs rpl n st0])
      from iteration_inv [OF "1.prems"(1) n] "1.IH" [OF True n _ m] show ?thesis by simp
    qed
  qed
qed

lemma loop_states_length_le:
  "length (loop_states objs rpl n st) \<le> n - length (result st)"
proof (induction objs rpl n st rule: loop_states.induct)
  case (1 objs rpl n st)
  show ?case
  proof (cases "length (result st) < n")
    case False
    then show ?thesis by (simp add: loop_states.simps [of objs rpl n st])
  next
    case True
    show ?thesis
    proof (cases "iteration objs rpl st")
      case (Next st')
      from "1.IH" [OF True Next] iteration_length [OF Next] True Next show ?thesis
        by (simp add: loop_states.simps [of objs rpl n st])
    qed (use True in \<open>simp_all add: loop_states.simps [of objs rpl n st]\<close>)
  qed
qed

lemma loop_states_length_complete:
  "loop_inv objs students st \<Longrightarrow> [] \<notin> fst ` set (byLevel st) \<Longrightarrow>
   length (loop_states objs rpl (length students) st) = length students - length (result st)"
proof (induction objs rpl "length students" st rule: loop_states.induct)
  case (1 objs rpl st)
  show ?case
  proof (cases "length (result st) < length students")
    case False
    then show ?thesis by (simp add: loop_states.simps [of objs rpl _ st])
  next
    case True
    then have rem: "remaining (byLevel st) \<noteq> []" using loop_inv_length [OF "1.prems"(1)] by auto
    from iteration_progress [OF "1.prems"(1,2) rem]
    obtain st' where n: "iteration objs rpl st = Next st'" by auto
    from iteration_inv [OF "1.prems"(1) n]
    have inv': "loop_inv objs students st'" and k: "map fst (byLevel st') = map fst (byLevel st)"
      by simp_all
    have "[] \<notin> fst ` set (byLevel st')" using k "1.prems"(2) by (metis set_map)
    from "1.hyps" [OF True n inv' this] iteration_length [OF n] show ?thesis using True n
      by (simp add: loop_states.simps [of objs rpl _ st])
  qed
qed

lemma iterations_inv:
  assumes "st \<in> set (iterations objs rs students)"
  shows "loop_inv objs students st \<and> remaining (byLevel st) \<noteq> [] \<and>
    fst ` set (byLevel st) = (\<lambda>s. level (objs s)) ` set students"
proof -
  from assms have st: "st \<in> set (loop_states objs (rooms_per_level objs students [])
      (length students) (initial_state objs students rs))"
    by (auto simp: iterations_def split: if_splits)
  from loop_states_inv [OF initial_state_inv st]
  have a: "loop_inv objs students st"
    "map fst (byLevel st) = map fst (byLevel (initial_state objs students rs))"
    "length (result st) < length students" by simp_all
  have "fst ` set (byLevel st) = fst ` set (byLevel (initial_state objs students rs))"
    using a(2) by (metis set_map)
  moreover have "remaining (byLevel st) \<noteq> []" using loop_inv_length [OF a(1)] a(3) by auto
  ultimately show ?thesis using a(1) by (simp add: initial_state_keys)
qed

subsection \<open>Runs on pools without an empty level\<close>

lemma no_emergency_when_levels_nonempty:
  assumes "\<forall>s \<in> set students. level (objs s) \<noteq> []"
    and "st \<in> set (iterations objs rs students)"
  shows "\<not> emergency_taken objs st"
proof -
  from iterations_inv [OF assms(2)] assms(1)
  have "loop_inv objs students st" "[] \<notin> fst ` set (byLevel st)" "remaining (byLevel st) \<noteq> []"
    by auto
  from iteration_progress [OF this] show ?thesis by simp
qed

lemma picked_candidate:
  assumes "\<not> emergency_taken objs st" "picked objs st = Some (s, lv)"
  shows "\<exists>lvs. candidate_levels st = Some lvs \<and> lv \<in> set lvs"
proof -
  from assms(2) obtain sel rs where ch: "chosen objs st = Some (Inr (sel, rs))"
    and sel: "sel = (Some s, Some lv)"
    by (auto simp: picked_def nothing_selected_def split: option.splits sum.splits prod.splits if_splits
        elim!: truthy_object.elims truthy_string.elims)
  from ch assms(1) have s0: "selection objs st = Some (Inr (sel, rs))"
    by (auto simp: chosen_def emergency_taken_def split: option.splits sum.splits prod.splits if_splits)
  then obtain lvs sh rs0 where cl: "candidate_levels st = Some lvs"
    and sh: "random_sort lvs (rand st) = (sh, rs0)"
    and tl: "try_levels objs (byLevel st) (roomCooldown st) sh rs0 = Inr (sel, rs)"
    by (auto simp: selection_def split: option.splits prod.splits)
  have "lv \<in> set sh" using try_levels_sound [of objs "byLevel st" "roomCooldown st" sh rs0 "Some s" "Some lv" rs] tl sel
    by auto
  then show ?thesis using cl random_sort_set [of lvs "rand st"] sh by auto
qed

lemma level_cooldown_respected:
  assumes "\<forall>s \<in> set students. level (objs s) \<noteq> []"
    and "st \<in> set (iterations objs rs students)"
    and "picked objs st = Some (s, lv)"
  shows "get_or_0 (levelCooldown st) lv \<le> 0 \<or>
    (\<forall>(lv', b') \<in> set (byLevel st). b' \<noteq> [] \<longrightarrow>
       0 < get_or_0 (levelCooldown st) lv' \<and>
       get_or_0 (levelCooldown st) lv \<le> get_or_0 (levelCooldown st) lv')"
proof -
  from picked_candidate [OF no_emergency_when_levels_nonempty [OF assms(1,2)] assms(3)]
  obtain lvs where "candidate_levels st = Some lvs" "lv \<in> set lvs" by auto
  then show ?thesis using candidate_levels_sound [of st lvs] by blast
qed

lemma picks_when_levels_nonempty:
  assumes "\<forall>s \<in> set students. level (objs s) \<noteq> []"
  shows "length (iterations objs rs students) = (if length students \<le> 2 then 0 else length students)
    \<and> (\<forall>st \<in> set (iterations objs rs students).
         \<exists>st'. iteration objs (rooms_per_level objs students []) st = Next st' \<and>
           length (remaining (byLevel st')) + 1 = length (remaining (byLevel st)))"
proof
  have "[] \<notin> fst ` set (byLevel (initial_state objs students rs))"
    using assms by (auto simp: initial_state_keys)
  from loop_states_length_complete [OF initial_state_inv this]
  show "length (iterations objs rs students) = (if length students \<le> 2 then 0 else length students)"
    by (simp add: iterations_def initial_state_def split: prod.splits)
next
  show "\<forall>st \<in> set (iterations objs rs students).
         \<exists>st'. iteration objs (rooms_per_level objs students []) st = Next st' \<and>
           length (remaining (byLevel st')) + 1 = length (remaining (byLevel st))"
  proof
    fix st assume st: "st \<in> set (iterations objs rs students)"
    from iterations_inv [OF st] assms
    have a: "loop_inv objs students st" "[] \<notin> fst ` set (byLevel st)" "remaining (byLevel st) \<noteq> []"
      by auto
    from iteration_progress [OF a] obtain st' where
      n: "iteration objs (rooms_per_level objs students []) st = Next st'" by auto
    from iteration_inv [OF a(1) n] have "loop_inv objs students st'" by simp
    from loop_inv_length [OF this] loop_inv_length [OF a(1)] iteration_length [OF n]
    have "length (remaining (byLevel st')) + 1 = length (remaining (byLevel st))" by simp
    then show "\<exists>st'. iteration objs (rooms_per_level objs students []) st = Next st' \<and>
           length (remaining (byLevel st')) + 1 = length (remaining (byLevel st))"
      using n by auto
  qed
qed

lemma iterations_at_most_pool: "length (iterations objs rs students) \<le> length students"
  using loop_states_length_le [of objs "rooms_per_level objs students []" "length students"
      "initial_state objs students rs"]
  by (auto simp: iterations_def)

section \<open>Room counts and cooldown counters\<close>

lemma lookup_rooms_update:
  "lookup_rooms (AList.update k v m) k' = (if k' = k then v else lookup_rooms m k')"
  by (simp add: lookup_rooms_def update_conv')

lemma rooms_per_level_set:
  "set (lookup_rooms (rooms_per_level objs ss rpl) lv) =
     set (lookup_rooms rpl lv) \<union> (\<lambda>s. room (objs s)) ` {s \<in> set ss. level (objs s) = lv}"
proof (induction ss arbitrary: rpl)
  case Nil
  then show ?case by simp
next
  case (Cons s ss)
  have "(case map_of rpl (level (objs s)) of None \<Rightarrow> [] | Some rs \<Rightarrow> rs) = lookup_rooms rpl (level (objs s))"
    by (simp add: lookup_rooms_def)
  then show ?case using Cons.IH
    by (auto simp: Let_def lookup_rooms_update set_add_def)
qed

lemma rooms_per_level_distinct:
  "distinct (lookup_rooms rpl lv) \<Longrightarrow> distinct (lookup_rooms (rooms_per_level objs ss rpl) lv)"
proof (induction ss arbitrary: rpl)
  case Nil
  then show ?case by simp
next
  case (Cons s ss)
  have e: "(case map_of rpl (level (objs s)) of None \<Rightarrow> [] | Some rs \<Rightarrow> rs) = lookup_rooms rpl (level (objs s))"
    by (simp add: lookup_rooms_def)
  have "distinct (lookup_rooms (AList.update (level (objs s))
      (set_add (room (objs s)) (lookup_rooms rpl (level (objs s)))) rpl) lv)"
    using Cons.prems by (auto simp: lookup_rooms_update set_add_def)
  then show ?case using Cons.IH e by (simp add: Let_def)
qed

lemma room_count_eq:
  assumes "s \<in> set students"
  shows "room_count (rooms_per_level objs students []) (level (objs s))
    = int (roomCount objs students (level (objs s)))"
proof -
  let ?lv = "level (objs s)"
  let ?rooms = "lookup_rooms (rooms_per_level objs students []) ?lv"
  have set_rooms: "set ?rooms = (\<lambda>s. room (objs s)) ` {x \<in> set students. level (objs x) = ?lv}"
    using rooms_per_level_set [of objs students "[]" ?lv] by (simp add: lookup_rooms_def)
  have d: "distinct ?rooms"
    by (rule rooms_per_level_distinct) (simp add: lookup_rooms_def)
  have "room (objs s) \<in> set ?rooms" using assms set_rooms by auto
  then have ne: "?rooms \<noteq> []" by auto
  have "length ?rooms = roomCount objs students ?lv"
    using distinct_card [OF d] set_rooms by (simp add: roomCount_def)
  moreover have "room_count (rooms_per_level objs students []) ?lv = int (length ?rooms)"
    using ne by (auto simp: room_count_def lookup_rooms_def split: option.splits)
  ultimately show ?thesis by simp
qed



lemma remaining_member:
  "map_of bl lv = Some b \<Longrightarrow> s \<in> set b \<Longrightarrow> s \<in> set (remaining bl)"
  by (force simp: remaining_def dest!: map_of_SomeD)

lemma loop_inv_member:
  assumes "loop_inv objs students st" "map_of (byLevel st) lv = Some b" "s \<in> set b"
  shows "s \<in> set students \<and> level (objs s) = lv"
proof -
  have "s \<in># mset (remaining (byLevel st))" using remaining_member [OF assms(2,3)] by simp
  then have "s \<in># mset students" using assms(1) by (metis loop_inv_def union_iff)
  moreover have "level (objs s) = lv"
    using assms by (auto simp: loop_inv_def dest: bucket_levels_lookup)
  ultimately show ?thesis by simp
qed





lemma get_or_0_decrease_same:
  "get_or_0 (decrease_cooldowns k (AList.update k v m)) k = v"
proof -
  have "map_of (decrease_cooldowns k m') k = map_of m' k" for m'
    by (induction m') (auto simp: decrease_cooldowns_def)
  then show ?thesis by (simp add: get_or_0_def update_conv')
qed

lemma get_or_0_decrease_other:
  "k' \<noteq> k \<Longrightarrow> get_or_0 (decrease_cooldowns k (AList.update k v m)) k' = max (get_or_0 m k' - 1) 0"
proof -
  assume ne: "k' \<noteq> k"
  have "map_of (decrease_cooldowns k m') k' = map_option (\<lambda>c. max (c - 1) 0) (map_of m' k')" for m'
    using ne by (induction m') (auto simp: decrease_cooldowns_def)
  then show ?thesis using ne by (simp add: get_or_0_def update_conv' split: option.splits)
qed

lemma commit_room_cooldown:
  assumes "commit objs rpl st s lv rs = Inr st'"
  shows "get_or_0 (roomCooldown st') k =
    (if k = room_key lv (room (objs s)) then max (room_count rpl lv - 1) 0
     else max (get_or_0 (roomCooldown st) k - 1) 0)"
  using assms
  by (auto simp: commit_def Let_def get_or_0_decrease_same get_or_0_decrease_other
      split: option.splits)

lemma commit_level_cooldown:
  assumes "commit objs rpl st s lv rs = Inr st'"
  shows "get_or_0 (levelCooldown st') k =
    (if k = lv then LEVEL_COOLDOWN else max (get_or_0 (levelCooldown st) k - 1) 0)"
  using assms
  by (auto simp: commit_def Let_def get_or_0_decrease_same get_or_0_decrease_other
      split: option.splits)

lemma picked_students_to_pick:
  assumes "\<not> emergency_taken objs st" "picked objs st = Some (s, lv)"
  shows "\<exists>b. map_of (byLevel st) lv = Some b \<and> s \<in> set (students_to_pick objs (roomCooldown st) lv b)"
proof -
  from assms(2) obtain sel rs where ch: "chosen objs st = Some (Inr (sel, rs))"
    and sel: "sel = (Some s, Some lv)"
    by (auto simp: picked_def nothing_selected_def split: option.splits sum.splits prod.splits if_splits
        elim!: truthy_object.elims truthy_string.elims)
  from ch assms(1) have s0: "selection objs st = Some (Inr (sel, rs))"
    by (auto simp: chosen_def emergency_taken_def split: option.splits sum.splits prod.splits if_splits)
  then obtain sh rs0 where
    tl: "try_levels objs (byLevel st) (roomCooldown st) sh rs0 = Inr (sel, rs)"
    by (auto simp: selection_def split: option.splits prod.splits)
  show ?thesis
    using try_levels_sound [of objs "byLevel st" "roomCooldown st" sh rs0 "Some s" "Some lv" rs] tl sel
    by auto
qed

lemma picked_off_cooldown:
  assumes "\<not> emergency_taken objs st" "picked objs st = Some (s, lv)" "\<not> room_fallback objs st"
  shows "get_or_0 (roomCooldown st) (room_key lv (room (objs s))) \<le> 0"
proof -
  from picked_students_to_pick [OF assms(1,2)] obtain b where
    b: "map_of (byLevel st) lv = Some b" "s \<in> set (students_to_pick objs (roomCooldown st) lv b)"
    by auto
  have "valid_students objs (roomCooldown st) lv b \<noteq> []"
    using assms(2,3) b(1) by (simp add: room_fallback_def)
  then have "s \<in> set (valid_students objs (roomCooldown st) lv b)"
    using b(2) by (simp add: students_to_pick_def)
  then show ?thesis by (simp add: valid_students_def)
qed

lemma pick_loop_step:
  "iteration objs rpl st = Next st' \<Longrightarrow> length (result st) < n \<Longrightarrow>
   pick_loop objs rpl n st = pick_loop objs rpl n st'"
  by (simp add: pick_loop.simps [of objs rpl n st])

lemma room_key_inject: "room_key lv r = room_key lv r' \<longleftrightarrow> r = r'"
  by (simp add: room_key_def)

text \<open>A student that is still in a bucket and whose room is off cooldown keeps the room fallback away.\<close>

lemma unpicked_in_bucket:
  assumes "loop_inv objs students st" "x \<in> set students" "x \<notin> set (result st)"
  shows "\<exists>b. map_of (byLevel st) (level (objs x)) = Some b \<and> x \<in> set b"
proof -
  have "x \<in># mset (result st) + mset (remaining (byLevel st))"
    using assms(1,2) by (simp add: loop_inv_def)
  then have "x \<in> set (remaining (byLevel st))" using assms(3) by simp
  then obtain lv b where b: "(lv, b) \<in> set (byLevel st)" "x \<in> set b"
    by (auto simp: remaining_def)
  then have "level (objs x) = lv" using assms(1) by (auto simp: loop_inv_def bucket_levels_def)
  then show ?thesis using b assms(1) by (auto simp: loop_inv_def)
qed

lemma no_room_fallback:
  assumes "picked objs st = Some (s, lv)" "map_of (byLevel st) lv = Some b" "x \<in> set b"
    "get_or_0 (roomCooldown st) (room_key lv (room (objs x))) \<le> 0"
  shows "\<not> room_fallback objs st"
  using assms by (auto simp: room_fallback_def valid_students_def filter_empty_conv)

lemma third_element: "3 \<le> card A \<Longrightarrow> \<exists>y \<in> A. y \<noteq> a \<and> y \<noteq> b"
proof (rule ccontr)
  assume c: "3 \<le> card A" and "\<not> (\<exists>y \<in> A. y \<noteq> a \<and> y \<noteq> b)"
  then have "A \<subseteq> {a, b}" by auto
  then have "card A \<le> card {a, b}" by (intro card_mono) auto
  also have "\<dots> \<le> 2" by (simp add: card_insert_if)
  finally show False using c by simp
qed

lemma single_level_step:
  assumes inv: "loop_inv objs students st"
    and keys: "[] \<notin> fst ` set (byLevel st)"
    and lt: "length (result st) < length students"
    and lvl: "\<forall>s \<in> set students. level (objs s) = lv"
  shows "\<exists>s st'. iteration objs (rooms_per_level objs students []) st = Next st' \<and>
      result st' = result st @ [s] \<and> loop_inv objs students st' \<and>
      [] \<notin> fst ` set (byLevel st') \<and> s \<in> set students \<and>
      (\<forall>k. get_or_0 (roomCooldown st') k =
         (if k = room_key lv (room (objs s)) then room_window objs students lv
          else max (get_or_0 (roomCooldown st) k - 1) 0)) \<and>
      ((\<exists>x \<in> set students. x \<notin> set (result st) \<and>
          get_or_0 (roomCooldown st) (room_key lv (room (objs x))) \<le> 0) \<longrightarrow>
       get_or_0 (roomCooldown st) (room_key lv (room (objs s))) \<le> 0)"
proof -
  let ?rpl = "rooms_per_level objs students []"
  have rem: "remaining (byLevel st) \<noteq> []" using loop_inv_length [OF inv] lt by auto
  from iteration_progress [OF inv keys rem]
  obtain st' where n: "iteration objs ?rpl st = Next st'" and em: "\<not> emergency_taken objs st"
    by auto
  from n obtain s lv' rs where p: "picked objs st = Some (s, lv')"
    and c: "commit objs ?rpl st s lv' rs = Inr st'"
    by (auto simp: iteration_Next)
  from chosen_in_bucket [OF _ p] inv obtain b where
    b: "map_of (byLevel st) lv' = Some b" "s \<in> set b" by (auto simp: loop_inv_def)
  from loop_inv_member [OF inv b] lvl have s: "s \<in> set students" "lv' = lv" by auto
  from iteration_inv [OF inv n] have inv': "loop_inv objs students st'"
    and k': "map fst (byLevel st') = map fst (byLevel st)" by simp_all
  have keys': "[] \<notin> fst ` set (byLevel st')" using k' keys by (metis set_map)
  have w: "max (room_count ?rpl lv - 1) 0 = room_window objs students lv"
    using room_count_eq [OF s(1), of objs] lvl s(1) by (simp add: room_window_def)
  have rc: "\<forall>k. get_or_0 (roomCooldown st') k =
         (if k = room_key lv (room (objs s)) then room_window objs students lv
          else max (get_or_0 (roomCooldown st) k - 1) 0)"
    using commit_room_cooldown [OF c] w s(2) by simp
  have off: "get_or_0 (roomCooldown st) (room_key lv (room (objs s))) \<le> 0"
    if x: "x \<in> set students" "x \<notin> set (result st)"
      "get_or_0 (roomCooldown st) (room_key lv (room (objs x))) \<le> 0" for x
  proof -
    from unpicked_in_bucket [OF inv x(1,2)] lvl x(1) obtain bx where
      "map_of (byLevel st) lv = Some bx" "x \<in> set bx" by auto
    from no_room_fallback [OF p [unfolded s(2)] this x(3)] picked_off_cooldown [OF em p] s(2)
    show ?thesis by simp
  qed
  show ?thesis using n commit_result [OF c] inv' keys' s(1) rc off by blast
qed

lemma single_level_round_robin:
  assumes lvl: "\<forall>s \<in> set students. level (objs s) = lv" and ne: "lv \<noteq> []"
    and three: "3 \<le> roomCount objs students lv"
  shows "\<exists>out. fairDistributionShuffle objs rs students = Inr out \<and> mset out = mset students \<and>
    distinct (map (\<lambda>s. room (objs s)) (take 3 out))"
proof -
  let ?rpl = "rooms_per_level objs students []"
  let ?n = "length students"
  let ?w = "room_window objs students lv"
  let ?key = "\<lambda>s. room_key lv (room (objs s))"
  let ?R = "(\<lambda>s. room (objs s)) ` set students"
  have R: "3 \<le> card ?R"
  proof -
    have "{s \<in> set students. level (objs s) = lv} = set students" using lvl by auto
    then show ?thesis using three by (simp add: roomCount_def)
  qed
  have "card ?R \<le> ?n" by (metis card_image_le card_length le_trans List.finite_set)
  then have n3: "3 \<le> ?n" using R by simp
  have w2: "2 \<le> ?w" using three by (simp add: room_window_def)
  define st0 where "st0 = initial_state objs students rs"
  have inv0: "loop_inv objs students st0" unfolding st0_def by (rule initial_state_inv)
  have keys0: "[] \<notin> fst ` set (byLevel st0)"
    using lvl ne unfolding st0_def by (auto simp: initial_state_keys)
  have res0: "result st0 = []" and rc0: "roomCooldown st0 = []"
    unfolding st0_def by (simp_all add: initial_state_def split: prod.splits)
  \<comment> \<open>the first pick\<close>
  have lt0: "length (result st0) < length students" using n3 res0 by auto
  from single_level_step [OF inv0 keys0 lt0 lvl] res0 obtain s1 st1 where
    it1: "iteration objs ?rpl st0 = Next st1" and res1: "result st1 = [s1]"
    and inv1: "loop_inv objs students st1" and keys1: "[] \<notin> fst ` set (byLevel st1)"
    and rc1: "\<forall>k. get_or_0 (roomCooldown st1) k =
         (if k = ?key s1 then ?w else max (get_or_0 (roomCooldown st0) k - 1) 0)"
    by auto
  have rc1': "get_or_0 (roomCooldown st1) k = (if k = ?key s1 then ?w else 0)" for k
    using rc1 rc0 by (simp add: get_or_0_def)
  \<comment> \<open>the second pick\<close>
  from third_element [OF R, of "room (objs s1)" "room (objs s1)"]
  obtain x where x: "x \<in> set students" "room (objs x) \<noteq> room (objs s1)" by auto
  have x1: "x \<notin> set (result st1)" using x(2) res1 by auto
  have x2: "get_or_0 (roomCooldown st1) (?key x) \<le> 0" using x(2) rc1' by (simp add: room_key_inject)
  have lt1: "length (result st1) < length students" using n3 res1 by simp
  from single_level_step [OF inv1 keys1 lt1 lvl] res1 obtain s2 st2 where
    it2: "iteration objs ?rpl st1 = Next st2" and res2: "result st2 = [s1, s2]"
    and inv2: "loop_inv objs students st2" and keys2: "[] \<notin> fst ` set (byLevel st2)"
    and rc2: "\<forall>k. get_or_0 (roomCooldown st2) k =
         (if k = ?key s2 then ?w else max (get_or_0 (roomCooldown st1) k - 1) 0)"
    and off2: "(\<exists>x \<in> set students. x \<notin> set (result st1) \<and>
          get_or_0 (roomCooldown st1) (?key x) \<le> 0) \<longrightarrow>
       get_or_0 (roomCooldown st1) (?key s2) \<le> 0"
    by auto
  have g2: "get_or_0 (roomCooldown st1) (?key s2) \<le> 0" using off2 x(1) x1 x2 by blast
  have "get_or_0 (roomCooldown st1) (?key s1) = ?w" using rc1' [of "?key s1"] by simp
  with g2 w2 have k21: "?key s2 \<noteq> ?key s1" by fastforce
  then have r21: "room (objs s2) \<noteq> room (objs s1)" by auto
  have rc2': "get_or_0 (roomCooldown st2) k =
      (if k = ?key s2 then ?w else if k = ?key s1 then ?w - 1 else 0)" for k
    using rc2 rc1' [of k] w2 by auto
  \<comment> \<open>the third pick\<close>
  from third_element [OF R, of "room (objs s1)" "room (objs s2)"]
  obtain y where y: "y \<in> set students" "room (objs y) \<noteq> room (objs s1)"
    "room (objs y) \<noteq> room (objs s2)" by auto
  have y1: "y \<notin> set (result st2)" using y(2,3) res2 by auto
  have y2: "get_or_0 (roomCooldown st2) (?key y) \<le> 0"
    using y(2,3) rc2' by (simp add: room_key_inject)
  have lt2: "length (result st2) < length students" using n3 res2 by simp
  from single_level_step [OF inv2 keys2 lt2 lvl] res2 obtain s3 st3 where
    it3: "iteration objs ?rpl st2 = Next st3" and res3: "result st3 = [s1, s2, s3]"
    and inv3: "loop_inv objs students st3"
    and off3: "(\<exists>x \<in> set students. x \<notin> set (result st2) \<and>
          get_or_0 (roomCooldown st2) (?key x) \<le> 0) \<longrightarrow>
       get_or_0 (roomCooldown st2) (?key s3) \<le> 0"
    by auto
  have g3: "get_or_0 (roomCooldown st2) (?key s3) \<le> 0" using off3 y(1) y1 y2 by blast
  have "1 \<le> get_or_0 (roomCooldown st2) k" if "k = ?key s2 \<or> k = ?key s1" for k
    using that rc2' [of k] w2 by (cases "k = ?key s2") simp_all
  from this [of "?key s3"] g3 have "?key s3 \<noteq> ?key s2 \<and> ?key s3 \<noteq> ?key s1" by fastforce
  then have r3: "room (objs s3) \<noteq> room (objs s2)" "room (objs s3) \<noteq> room (objs s1)" by auto
  \<comment> \<open>the output starts with the three picks\<close>
  have "pick_loop objs ?rpl ?n st0 = pick_loop objs ?rpl ?n st3"
    using pick_loop_step [OF it1 lt0] pick_loop_step [OF it2 lt1] pick_loop_step [OF it3 lt2]
    by simp
  moreover from pick_loop_general [OF inv3, of ?rpl ?n] obtain out where
    out: "pick_loop objs ?rpl ?n st3 = Inr out" "take (length (result st3)) out = result st3"
    by auto
  ultimately have f: "fairDistributionShuffle objs rs students = Inr out"
    using n3 by (simp add: fairDistributionShuffle_def st0_def)
  have "take 3 out = [s1, s2, s3]" using out(2) res3 by (simp add: numeral_3_eq_3)
  then have d: "distinct (map (\<lambda>s. room (objs s)) (take 3 out))" using r21 r3 by auto
  from shuffle_permutes [of students objs rs] lvl ne f have "mset out = mset students" by auto
  then show ?thesis using f d by simp
qed

section \<open>The spacing of the levels in the output\<close>

lemma loop_states_Cons:
  "length (result st) < n \<Longrightarrow>
   loop_states objs rpl n st =
     st # (case iteration objs rpl st of Next st' \<Rightarrow> loop_states objs rpl n st'
           | Break \<Rightarrow> [] | Raise e \<Rightarrow> [])"
  by (simp add: loop_states.simps [of objs rpl n st])

lemma loop_states_Nil: "\<not> length (result st) < n \<Longrightarrow> loop_states objs rpl n st = []"
  by (simp add: loop_states.simps [of objs rpl n st])

lemma loop_states_hd:
  "loop_states objs rpl n st \<noteq> [] \<Longrightarrow> loop_states objs rpl n st ! 0 = st"
  by (cases "length (result st) < n") (simp_all add: loop_states_Cons loop_states_Nil)

lemma loop_states_Suc:
  "Suc j < length (loop_states objs rpl n st) \<Longrightarrow>
   iteration objs rpl (loop_states objs rpl n st ! j) = Next (loop_states objs rpl n st ! Suc j)"
proof (induction objs rpl n st arbitrary: j rule: loop_states.induct)
  case (1 objs rpl n st)
  have lt: "length (result st) < n" using "1.prems" by (cases "length (result st) < n") (simp_all add: loop_states_Nil)
  then obtain st' where n: "iteration objs rpl st = Next st'"
    using "1.prems" by (cases "iteration objs rpl st") (simp_all add: loop_states_Cons)
  have unf: "loop_states objs rpl n st = st # loop_states objs rpl n st'"
    using lt n by (simp add: loop_states_Cons)
  show ?case
  proof (cases j)
    case 0
    have "loop_states objs rpl n st' \<noteq> []" using "1.prems" unf 0 by auto
    from loop_states_hd [OF this] show ?thesis using unf 0 n by simp
  next
    case (Suc j')
    then have "Suc j' < length (loop_states objs rpl n st')" using "1.prems" unf by simp
    from "1.IH" [OF lt n this] show ?thesis using unf Suc by simp
  qed
qed

lemma loop_states_result_length:
  "j < length (loop_states objs rpl n st) \<Longrightarrow>
   length (result (loop_states objs rpl n st ! j)) = length (result st) + j"
proof (induction objs rpl n st arbitrary: j rule: loop_states.induct)
  case (1 objs rpl n st)
  have lt: "length (result st) < n" using "1.prems" by (cases "length (result st) < n") (simp_all add: loop_states_Nil)
  show ?case
  proof (cases j)
    case 0
    then show ?thesis using lt by (simp add: loop_states_Cons)
  next
    case (Suc j')
    then obtain st' where n: "iteration objs rpl st = Next st'"
      using "1.prems" lt by (cases "iteration objs rpl st") (simp_all add: loop_states_Cons)
    have unf: "loop_states objs rpl n st = st # loop_states objs rpl n st'"
      using lt n by (simp add: loop_states_Cons)
    have "j' < length (loop_states objs rpl n st')" using "1.prems" unf Suc by simp
    from "1.IH" [OF lt n this] iteration_length [OF n] show ?thesis using unf Suc by simp
  qed
qed

lemma loop_states_pick_loop:
  "st \<in> set (loop_states objs rpl n st0) \<Longrightarrow> pick_loop objs rpl n st = pick_loop objs rpl n st0"
proof (induction objs rpl n st0 rule: loop_states.induct)
  case (1 objs rpl n st0)
  have lt: "length (result st0) < n" using "1.prems" by (cases "length (result st0) < n") (simp_all add: loop_states_Nil)
  show ?case
  proof (cases "st = st0")
    case True
    then show ?thesis by simp
  next
    case False
    then obtain st' where n: "iteration objs rpl st0 = Next st'"
      and m: "st \<in> set (loop_states objs rpl n st')"
      using "1.prems" lt by (cases "iteration objs rpl st0") (auto simp: loop_states_Cons)
    from "1.IH" [OF lt n m] pick_loop_step [OF n lt] show ?thesis by simp
  qed
qed

text \<open>The picks of the iterations are the entries of the output, in order.\<close>

lemma output_position:
  assumes ne: "\<forall>s \<in> set students. level (objs s) \<noteq> []"
    and out: "fairDistributionShuffle objs rs students = Inr out"
    and i: "i < length (iterations objs rs students)"
  shows "i < length out \<and>
    picked objs (iterations objs rs students ! i) = Some (out ! i, level (objs (out ! i)))"
proof -
  let ?rpl = "rooms_per_level objs students []"
  let ?n = "length students"
  let ?init = "initial_state objs students rs"
  let ?its = "iterations objs rs students"
  let ?st = "?its ! i"
  have big: "\<not> length students \<le> 2" using i by (auto simp: iterations_def)
  then have its: "?its = loop_states objs ?rpl ?n ?init" by (simp add: iterations_def)
  have mem: "?st \<in> set ?its" using i by simp
  from iterations_inv [OF mem] ne
  have inv: "loop_inv objs students ?st" and keys: "[] \<notin> fst ` set (byLevel ?st)"
    and rem: "remaining (byLevel ?st) \<noteq> []" by auto
  from iteration_progress [OF inv keys rem] obtain st' where
    n: "iteration objs ?rpl ?st = Next st'" by auto
  then obtain s lv rs' where p: "picked objs ?st = Some (s, lv)"
    and c: "commit objs ?rpl ?st s lv rs' = Inr st'" by (auto simp: iteration_Next)
  from chosen_in_bucket [OF _ p] inv obtain b where
    "map_of (byLevel ?st) lv = Some b" "s \<in> set b" by (auto simp: loop_inv_def)
  from loop_inv_member [OF inv this] have lv: "level (objs s) = lv" by simp
  have len: "length (result ?st) = i"
    using loop_states_result_length [of i objs ?rpl ?n ?init] i its
    by (simp add: initial_state_def split: prod.splits)
  have lt: "length (result ?st) < ?n" using loop_states_inv [OF initial_state_inv] mem its by metis
  have "pick_loop objs ?rpl ?n st' = pick_loop objs ?rpl ?n ?st" using pick_loop_step [OF n lt] by simp
  also have "\<dots> = pick_loop objs ?rpl ?n ?init" using loop_states_pick_loop mem its by metis
  also have "\<dots> = Inr out" using out big by (simp add: fairDistributionShuffle_def)
  finally have pl: "pick_loop objs ?rpl ?n st' = Inr out" .
  from iteration_inv [OF inv n] have inv': "loop_inv objs students st'" by simp
  from pick_loop_general [OF inv', of ?rpl ?n] pl
  have t: "length (result st') \<le> length out" "take (length (result st')) out = result st'" by auto
  have r': "result st' = result ?st @ [s]" by (rule commit_result [OF c])
  then have "i < length out" using t(1) len by simp
  moreover have "out ! i = s"
  proof -
    have "out ! i = take (Suc i) out ! i" by simp
    also have "take (Suc i) out = result ?st @ [s]" using t(2) r' len by simp
    finally show ?thesis using len by (simp add: nth_append)
  qed
  ultimately show ?thesis using p lv by simp
qed

lemma level_cooldown_after_pick:
  assumes "picked objs (iterations objs rs students ! i) = Some (s, lv)"
    and "i < j" "j < length (iterations objs rs students)"
  shows "6 - (int j - int i) \<le> get_or_0 (levelCooldown (iterations objs rs students ! j)) lv"
  using assms(2,3)
proof (induction j)
  case 0
  then show ?case by simp
next
  case (Suc j)
  let ?rpl = "rooms_per_level objs students []"
  let ?its = "iterations objs rs students"
  have big: "\<not> length students \<le> 2" using Suc.prems(2) by (auto simp: iterations_def)
  then have its: "?its = loop_states objs ?rpl (length students) (initial_state objs students rs)"
    by (simp add: iterations_def)
  have n: "iteration objs ?rpl (?its ! j) = Next (?its ! Suc j)"
    using loop_states_Suc [of j objs ?rpl "length students" "initial_state objs students rs"]
      Suc.prems(2) its by simp
  then obtain s' lv' rs' where p: "picked objs (?its ! j) = Some (s', lv')"
    and c: "commit objs ?rpl (?its ! j) s' lv' rs' = Inr (?its ! Suc j)" by (auto simp: iteration_Next)
  note cd = commit_level_cooldown [OF c, of lv]
  show ?case
  proof (cases "i = j")
    case True
    then have "lv' = lv" using p assms(1) by simp
    then show ?thesis using cd True by (simp add: LEVEL_COOLDOWN_def)
  next
    case False
    then have "6 - (int j - int i) \<le> get_or_0 (levelCooldown (?its ! j)) lv"
      using Suc by simp
    then show ?thesis using cd Suc.prems(1) by (auto simp: LEVEL_COOLDOWN_def)
  qed
qed

lemma level_spacing:
  assumes ne: "\<forall>s \<in> set students. level (objs s) \<noteq> []"
    and out: "fairDistributionShuffle objs rs students = Inr out"
    and ij: "i < j" "j \<le> i + 5" "j < length (iterations objs rs students)"
    and same: "level (objs (out ! j)) = level (objs (out ! i))"
  shows "level_fallback (iterations objs rs students ! j) \<and>
    (\<forall>(lv', b') \<in> set (byLevel (iterations objs rs students ! j)). b' \<noteq> [] \<longrightarrow>
       get_or_0 (levelCooldown (iterations objs rs students ! j)) (level (objs (out ! j)))
         \<le> get_or_0 (levelCooldown (iterations objs rs students ! j)) lv')"
proof -
  let ?its = "iterations objs rs students"
  let ?lv = "level (objs (out ! j))"
  have i: "i < length ?its" using ij by simp
  from output_position [OF ne out i] same
  have pi: "picked objs (?its ! i) = Some (out ! i, ?lv)" by simp
  from output_position [OF ne out ij(3)]
  have pj: "picked objs (?its ! j) = Some (out ! j, ?lv)" by simp
  from level_cooldown_after_pick [OF pi ij(1,3)] ij(2)
  have pos: "1 \<le> get_or_0 (levelCooldown (?its ! j)) ?lv" by simp
  have mem: "?its ! j \<in> set ?its" using ij(3) by simp
  from level_cooldown_respected [OF ne mem pj] pos
  have all: "\<forall>(lv', b') \<in> set (byLevel (?its ! j)). b' \<noteq> [] \<longrightarrow>
       0 < get_or_0 (levelCooldown (?its ! j)) lv' \<and>
       get_or_0 (levelCooldown (?its ! j)) ?lv \<le> get_or_0 (levelCooldown (?its ! j)) lv'"
    by auto
  then have "available_levels (byLevel (?its ! j)) (levelCooldown (?its ! j)) = []"
    by (auto simp: available_levels_def filter_empty_conv)
  then show ?thesis using all by (auto simp: level_fallback_def)
qed

section \<open>The shuffle on the heap refines the shuffle on lists\<close>

lemma unchanged_below_refl: "unchanged_below n0 h h"
  by (simp add: unchanged_below_def)

lemma unchanged_below_trans:
  "unchanged_below n0 h h1 \<Longrightarrow> unchanged_below n0 h1 h2 \<Longrightarrow> unchanged_below n0 h h2"
  by (auto simp: unchanged_below_def)

lemma contents_map_of: "map_of (contents h bl) lv = map_option (arrays h) (map_of bl lv)"
  by (induction bl) (auto simp: contents_def)

lemma contents_update:
  "contents h (AList.update k a bl) = AList.update k (arrays h a) (contents h bl)"
  by (induction bl) (auto simp: contents_def)

lemma contents_cong:
  "\<forall>a \<in> snd ` set bl. arrays h' a = arrays h a \<Longrightarrow> contents h' bl = contents h bl"
  by (induction bl) (auto simp: contents_def)

lemma contents_keys: "map fst (contents h bl) = map fst bl"
  by (induction bl) (auto simp: contents_def)

text \<open>writing the array of one key\<close>

lemma contents_write:
  assumes "distinct (map fst bl)" "distinct (map snd bl)" "map_of bl k = Some a"
    "arrays h' a = v" "\<forall>a'. a' \<noteq> a \<longrightarrow> a' \<in> snd ` set bl \<longrightarrow> arrays h' a' = arrays h a'"
  shows "contents h' bl = AList.update k v (contents h bl)"
  using assms
proof (induction bl)
  case Nil
  then show ?case by simp
next
  case (Cons p bl)
  obtain k' a' where p: "p = (k', a')" by (cases p)
  show ?case
  proof (cases "k' = k")
    case True
    then have a: "a' = a" using Cons.prems(3) p by simp
    have "a \<notin> snd ` set bl" using Cons.prems(2) p a by auto
    then have "contents h' bl = contents h bl"
      using Cons.prems(5) by (intro contents_cong) auto
    then show ?thesis using p True a Cons.prems(4) by (simp add: contents_def)
  next
    case False
    then have m: "map_of bl k = Some a" using Cons.prems(3) p by simp
    then have "(k, a) \<in> set bl" by (rule map_of_SomeD)
    then have "a \<in> snd ` set bl" by force
    then have "a' \<noteq> a" using Cons.prems(2) p by auto
    then have "arrays h' a' = arrays h a'" using Cons.prems(5) p by auto
    moreover have "contents h' bl = AList.update k v (contents h bl)"
      using Cons.IH Cons.prems m p by auto
    ultimately show ?thesis using p False by (simp add: contents_def)
  qed
qed

lemma buckets_ok_fresh:
  assumes "buckets_ok n0 h bl" "map_of bl k = None" "n0 \<le> next_addr h"
  shows "buckets_ok n0 (h\<lparr>arrays := f, next_addr := Suc (next_addr h)\<rparr>)
           (AList.update k (next_addr h) bl)"
proof -
  have k: "k \<notin> fst ` set bl" using assms(2) by (simp add: map_of_eq_None_iff)
  then have u: "AList.update k (next_addr h) bl = bl @ [(k, next_addr h)]" by (rule update_absent)
  have "next_addr h \<notin> snd ` set bl" using assms(1) by (auto simp: buckets_ok_def)
  then show ?thesis using assms(1,3) k unfolding u by (auto simp: buckets_ok_def)
qed

lemma buckets_ok_same:
  assumes "buckets_ok n0 h bl" "map_of bl k = Some a" "next_addr h' = next_addr h"
  shows "buckets_ok n0 h' (AList.update k a bl)"
  using assms by (simp add: update_triv buckets_ok_def)

lemma group_by_level_h_refines:
  "group_by_level_h ss bl h = (bl', h') \<Longrightarrow> buckets_ok n0 h bl \<Longrightarrow> n0 \<le> next_addr h \<Longrightarrow>
   contents h' bl' = group_by_level (objects h) ss (contents h bl) \<and>
   buckets_ok n0 h' bl' \<and> unchanged_below n0 h h'"
proof (induction ss arbitrary: bl h)
  case Nil
  then show ?case by (simp add: unchanged_below_def)
next
  case (Cons s ss)
  let ?lv = "level (objects h s)"
  show ?case
  proof (cases "map_of bl ?lv")
    case None
    let ?a = "next_addr h"
    let ?h2 = "array_push ?a s (snd (new_array h))"
    have g: "group_by_level_h ss (AList.update ?lv ?a bl) ?h2 = (bl', h')"
      using Cons.prems(1) None by (simp add: new_array_def)
    have h2: "?h2 = h\<lparr>arrays := (arrays h)(?a := [s]), next_addr := Suc ?a\<rparr>"
      by (simp add: new_array_def array_push_def)
    have ok: "buckets_ok n0 ?h2 (AList.update ?lv ?a bl)"
      unfolding h2 by (rule buckets_ok_fresh [OF Cons.prems(2) None Cons.prems(3)])
    have fresh: "?a \<notin> snd ` set bl" using Cons.prems(2) by (auto simp: buckets_ok_def)
    then have "contents ?h2 bl = contents h bl" unfolding h2 by (intro contents_cong) force
    then have c: "contents ?h2 (AList.update ?lv ?a bl) = AList.update ?lv [s] (contents h bl)"
      by (simp add: contents_update h2)
    have ub: "unchanged_below n0 h ?h2" using Cons.prems(3) unfolding h2
      by (auto simp: unchanged_below_def)
    have n: "n0 \<le> next_addr ?h2" using Cons.prems(3) unfolding h2 by simp
    from Cons.IH [OF g ok n] c ub None show ?thesis
      by (auto simp: contents_map_of unchanged_below_def)
  next
    case (Some a)
    let ?h2 = "array_push a s h"
    have g: "group_by_level_h ss (AList.update ?lv a bl) ?h2 = (bl', h')"
      using Cons.prems(1) Some by simp
    have ok: "buckets_ok n0 ?h2 (AList.update ?lv a bl)"
      by (rule buckets_ok_same [OF Cons.prems(2) Some]) (simp add: array_push_def)
    have "contents ?h2 bl = AList.update ?lv (arrays h a @ [s]) (contents h bl)"
      using Cons.prems(2) Some
      by (intro contents_write [where a = a]) (auto simp: buckets_ok_def array_push_def)
    then have c: "contents ?h2 (AList.update ?lv a bl)
        = AList.update ?lv (arrays h a @ [s]) (contents h bl)"
      using Some by (simp add: update_triv)
    have "(?lv, a) \<in> set bl" using Some by (rule map_of_SomeD)
    then have "n0 \<le> a" using Cons.prems(2) by (force simp: buckets_ok_def)
    then have ub: "unchanged_below n0 h ?h2" by (auto simp: unchanged_below_def array_push_def)
    have n: "n0 \<le> next_addr ?h2" using Cons.prems(3) by (simp add: array_push_def)
    from Cons.IH [OF g ok n] c ub Some show ?thesis
      by (auto simp: contents_map_of unchanged_below_def array_push_def)
  qed
qed

lemma shuffle_levels_h_refines:
  "shuffle_levels_h es rs h = (h', rs') \<Longrightarrow> distinct (map snd es) \<Longrightarrow>
   (contents h' es, rs') = shuffle_levels (contents h es) rs \<and>
   objects h' = objects h \<and> next_addr h' = next_addr h \<and>
   (\<forall>a. a \<notin> snd ` set es \<longrightarrow> arrays h' a = arrays h a)"
proof (induction es arbitrary: rs h)
  case Nil
  then show ?case by (simp add: contents_def)
next
  case (Cons p es)
  obtain lv a where p: "p = (lv, a)" by (cases p)
  obtain sh rs1 where rsort: "random_sort (arrays h a) rs = (sh, rs1)"
    by (cases "random_sort (arrays h a) rs")
  let ?h1 = "h\<lparr>arrays := (arrays h)(a := sh)\<rparr>"
  have g: "shuffle_levels_h es rs1 ?h1 = (h', rs')"
    using Cons.prems(1) p rsort by (simp add: array_sort_def)
  have d: "distinct (map snd es)" and na: "a \<notin> snd ` set es" using Cons.prems(2) p by auto
  from Cons.IH [OF g d] have ih: "(contents h' es, rs') = shuffle_levels (contents ?h1 es) rs1"
    "objects h' = objects h" "next_addr h' = next_addr h"
    "\<forall>a'. a' \<notin> snd ` set es \<longrightarrow> arrays h' a' = arrays ?h1 a'" by simp_all
  have c1: "contents ?h1 es = contents h es" using na by (intro contents_cong) force
  have a': "arrays h' a = sh" using ih(4) na by simp
  have "shuffle_levels (contents h (p # es)) rs
      = (case shuffle_levels (contents h es) rs1 of (rest', rs'') \<Rightarrow> ((lv, sh) # rest', rs''))"
    using p rsort by (simp add: contents_def)
  also have "\<dots> = ((lv, sh) # contents h' es, rs')" using ih(1) [symmetric] c1 by simp
  also have "\<dots> = (contents h' (p # es), rs')" using p a' by (simp add: contents_def)
  finally show ?case using ih p by auto
qed

lemma view_simps:
  "byLevel (view h hs) = contents h (bucket_of hs)"
  "result (view h hs) = arrays h (result_at hs)"
  "levelCooldown (view h hs) = level_cd hs"
  "roomCooldown (view h hs) = room_cd hs"
  "rand (view h hs) = rand_h hs"
  by (simp_all add: view_def contents_def)

lemma commit_h_refines:
  assumes ok: "heap_ok n0 h hs"
  shows "(case commit (objects h) rpl (view h hs) s lv rs of
            Inl e \<Rightarrow> commit_h rpl hs s lv rs h = Inl e
          | Inr st' \<Rightarrow> (\<exists>hs' h'. commit_h rpl hs s lv rs h = Inr (hs', h') \<and> view h' hs' = st' \<and>
               heap_ok n0 h' hs' \<and> unchanged_below n0 h h' \<and> next_addr h' = next_addr h \<and>
               result_at hs' = result_at hs))"
proof (cases "map_of (bucket_of hs) lv")
  case None
  then show ?thesis by (simp add: commit_def commit_h_def view_simps contents_map_of Let_def)
next
  case (Some a)
  let ?r = "result_at hs"
  let ?h1 = "array_push ?r s h"
  let ?idx = "indexOf (arrays h a) s"
  let ?h2 = "array_splice1 a ?idx ?h1"
  have "(lv, a) \<in> set (bucket_of hs)" using Some by (rule map_of_SomeD)
  then have a_in: "a \<in> snd ` set (bucket_of hs)" by force
  then have ar: "a \<noteq> ?r" and a0: "n0 \<le> a" using ok by (force simp: heap_ok_def buckets_ok_def)+
  have r0: "n0 \<le> ?r" using ok by (simp add: heap_ok_def)
  have h1a: "arrays ?h1 a = arrays h a" using ar by (simp add: array_push_def)
  obtain hs' where hs': "hs' = hs\<lparr> level_cd := decrease_cooldowns lv
                                (AList.update lv LEVEL_COOLDOWN (level_cd hs)),
                            room_cd := decrease_cooldowns (room_key lv (room (objects h s)))
                                (AList.update (room_key lv (room (objects h s)))
                                   (max (room_count rpl lv - 1) 0) (room_cd hs)),
                            rand_h := rs \<rparr>" by simp
  have ch: "commit_h rpl hs s lv rs h = Inr (hs', ?h2)"
    using Some h1a hs' by (simp add: commit_h_def Let_def array_splice1_def array_push_def)
  have arr2: "arrays ?h2 = (arrays h)(?r := arrays h ?r @ [s], a := splice1 ?idx (arrays h a))"
    using ar by (auto simp: array_splice1_def array_push_def)
  have "contents ?h2 (bucket_of hs) = AList.update lv (splice1 ?idx (arrays h a)) (contents h (bucket_of hs))"
  proof (rule contents_write [where a = a])
    show "distinct (map fst (bucket_of hs))" "distinct (map snd (bucket_of hs))"
      using ok by (simp_all add: heap_ok_def buckets_ok_def)
    show "map_of (bucket_of hs) lv = Some a" by (rule Some)
    show "arrays ?h2 a = splice1 ?idx (arrays h a)" by (simp add: arr2)
    show "\<forall>a'. a' \<noteq> a \<longrightarrow> a' \<in> snd ` set (bucket_of hs) \<longrightarrow> arrays ?h2 a' = arrays h a'"
      using ok by (auto simp: arr2 heap_ok_def)
  qed
  moreover have "arrays ?h2 ?r = arrays h ?r @ [s]" using ar by (simp add: arr2)
  ultimately have v: "view ?h2 hs' = \<lparr> byLevel = AList.update lv (splice1 ?idx (arrays h a)) (contents h (bucket_of hs)),
       result = arrays h ?r @ [s],
       levelCooldown = decrease_cooldowns lv (AList.update lv LEVEL_COOLDOWN (level_cd hs)),
       roomCooldown = decrease_cooldowns (room_key lv (room (objects h s)))
          (AList.update (room_key lv (room (objects h s))) (max (room_count rpl lv - 1) 0) (room_cd hs)),
       rand = rs \<rparr>"
    using hs' by (simp add: view_def contents_def)
  have c: "commit (objects h) rpl (view h hs) s lv rs = Inr (view ?h2 hs')"
    using Some v by (simp add: commit_def view_simps contents_map_of Let_def)
  have ok': "heap_ok n0 ?h2 hs'"
    using ok hs' by (simp add: heap_ok_def buckets_ok_def array_splice1_def array_push_def)
  have ub: "unchanged_below n0 h ?h2"
    using a0 r0 by (auto simp: unchanged_below_def arr2 array_splice1_def array_push_def)
  show ?thesis using c ch ok' ub hs' by (simp add: array_splice1_def array_push_def)
qed

lemma iteration_h_refines:
  assumes ok: "heap_ok n0 h hs"
  shows "(case iteration (objects h) rpl (view h hs) of
            Next st' \<Rightarrow> (\<exists>hs' h'. iteration_h rpl hs h = HNext hs' h' \<and> view h' hs' = st' \<and>
               heap_ok n0 h' hs' \<and> unchanged_below n0 h h' \<and> next_addr h' = next_addr h \<and>
               result_at hs' = result_at hs)
          | Break \<Rightarrow> iteration_h rpl hs h = HBreak
          | Raise e \<Rightarrow> iteration_h rpl hs h = HRaise e)"
proof (cases "chosen (objects h) (view h hs)")
  case None
  then show ?thesis by (simp add: iteration_def iteration_h_def)
next
  case (Some c)
  show ?thesis
  proof (cases c)
    case (Inl e)
    then show ?thesis using Some by (simp add: iteration_def iteration_h_def)
  next
    case (Inr p)
    obtain sel rs where p: "p = (sel, rs)" by (cases p)
    show ?thesis
    proof (cases "nothing_selected sel")
      case True
      then show ?thesis using Some Inr p by (simp add: iteration_def iteration_h_def)
    next
      case False
      from commit_h_refines [OF ok, of rpl "the (fst sel)" "the (snd sel)" rs]
      show ?thesis using Some Inr p False
        by (cases "commit (objects h) rpl (view h hs) (the (fst sel)) (the (snd sel)) rs")
           (auto simp: iteration_def iteration_h_def)
    qed
  qed
qed

lemma pick_loop_h_refines:
  "heap_ok n0 h hs \<Longrightarrow> students < n0 \<Longrightarrow> st = view h hs \<Longrightarrow> objs = objects h \<Longrightarrow>
   n = length (arrays h students) \<Longrightarrow>
   (case pick_loop objs rpl n st of
      Inl e \<Rightarrow> pick_loop_h rpl students hs h = Some (Inl e)
    | Inr out \<Rightarrow> (\<exists>h'. pick_loop_h rpl students hs h = Some (Inr (result_at hs, h')) \<and>
         arrays h' (result_at hs) = out \<and> unchanged_below n0 h h' \<and>
         next_addr h' = next_addr h))"
proof (induction objs rpl n st arbitrary: hs h rule: pick_loop.induct)
  case (1 objs rpl n st)
  have res: "result st = arrays h (result_at hs)" using "1.prems"(3) by (simp add: view_simps)
  show ?case
  proof (cases "length (result st) < n")
    case False
    then have "pick_loop objs rpl n st = Inr (result st)" by (simp add: pick_loop.simps [of objs rpl n st])
    moreover have "pick_loop_h rpl students hs h = Some (Inr (result_at hs, h))"
      using False res "1.prems"(5) by (simp add: pick_loop_h.simps [of rpl students hs h])
    ultimately show ?thesis using res by (simp add: unchanged_below_refl)
  next
    case True
    then have lt: "length (arrays h (result_at hs)) < length (arrays h students)"
      using res "1.prems"(5) by simp
    note ref = iteration_h_refines [OF "1.prems"(1), of rpl]
    show ?thesis
    proof (cases "iteration objs rpl st")
      case (Next st')
      then obtain hs' h' where it: "iteration_h rpl hs h = HNext hs' h'" and v: "st' = view h' hs'"
        and ok': "heap_ok n0 h' hs'" and ub: "unchanged_below n0 h h'"
        and na: "next_addr h' = next_addr h" and ra: "result_at hs' = result_at hs"
        using ref "1.prems"(3,4) by auto
      have o': "objs = objects h'" using ub "1.prems"(4) by (simp add: unchanged_below_def)
      have n': "n = length (arrays h' students)"
        using ub "1.prems"(2,5) by (simp add: unchanged_below_def)
      have pl: "pick_loop objs rpl n st = pick_loop objs rpl n st'"
        using True Next by (simp add: pick_loop.simps [of objs rpl n st])
      have plh: "pick_loop_h rpl students hs h = pick_loop_h rpl students hs' h'"
        using lt it by (simp add: pick_loop_h.simps [of rpl students hs h])
      from "1.IH" [OF True Next ok' "1.prems"(2) v o' n'] show ?thesis
        unfolding pl plh ra using ub na
        by (auto split: sum.splits intro: unchanged_below_trans)
    next
      case Break
      then have "iteration_h rpl hs h = HBreak" using ref "1.prems"(3,4) by simp
      then have "pick_loop_h rpl students hs h = Some (Inr (result_at hs, h))"
        using lt by (simp add: pick_loop_h.simps [of rpl students hs h])
      moreover have "pick_loop objs rpl n st = Inr (result st)"
        using True Break by (simp add: pick_loop.simps [of objs rpl n st])
      ultimately show ?thesis using res by (simp add: unchanged_below_refl)
    next
      case (Raise e)
      then have "iteration_h rpl hs h = HRaise e" using ref "1.prems"(3,4) by simp
      then have "pick_loop_h rpl students hs h = Some (Inl e)"
        using lt by (simp add: pick_loop_h.simps [of rpl students hs h])
      moreover have "pick_loop objs rpl n st = Inl e"
        using True Raise by (simp add: pick_loop.simps [of objs rpl n st])
      ultimately show ?thesis by simp
    qed
  qed
qed

lemma shuffle_h_refines:
  assumes alloc: "students < next_addr h"
  shows "(case fairDistributionShuffle (objects h) rs (arrays h students) of
      Inl e \<Rightarrow> fairDistributionShuffle_h rs students h = Some (Inl e)
    | Inr out \<Rightarrow> (\<exists>res h'. fairDistributionShuffle_h rs students h = Some (Inr (res, h')) \<and>
         arrays h' res = out \<and> unchanged_below (next_addr h) h h' \<and>
         (length (arrays h students) \<le> 2 \<longrightarrow> res = students \<and> h' = h) \<and>
         (2 < length (arrays h students) \<longrightarrow> next_addr h \<le> res)))"
proof (cases "length (arrays h students) \<le> 2")
  case True
  then show ?thesis
    by (simp add: fairDistributionShuffle_def fairDistributionShuffle_h_def unchanged_below_refl)
next
  case False
  let ?n0 = "next_addr h"
  let ?ss = "arrays h students"
  obtain bl h1 where g: "group_by_level_h ?ss [] h = (bl, h1)" by (cases "group_by_level_h ?ss [] h")
  from group_by_level_h_refines [OF g, of ?n0]
  have c1: "contents h1 bl = group_by_level (objects h) ?ss []" and ok1: "buckets_ok ?n0 h1 bl"
    and ub1: "unchanged_below ?n0 h h1"
    by (simp_all add: buckets_ok_def contents_def)
  have o1: "objects h1 = objects h" and a1: "arrays h1 students = ?ss"
    using ub1 alloc by (simp_all add: unchanged_below_def)
  obtain h2 rs' where s: "shuffle_levels_h bl rs h1 = (h2, rs')" by (cases "shuffle_levels_h bl rs h1")
  from shuffle_levels_h_refines [OF s] ok1
  have c2: "(contents h2 bl, rs') = shuffle_levels (contents h1 bl) rs"
    and o2: "objects h2 = objects h1" and n2: "next_addr h2 = next_addr h1"
    and f2: "\<forall>a. a \<notin> snd ` set bl \<longrightarrow> arrays h2 a = arrays h1 a"
    by (simp_all add: buckets_ok_def)
  have "arrays h2 a = arrays h1 a" if "a < ?n0" for a
  proof -
    have "a \<notin> snd ` set bl" using ok1 that by (force simp: buckets_ok_def)
    then show ?thesis using f2 by simp
  qed
  then have ub2: "unchanged_below ?n0 h1 h2"
    using o2 n2 by (simp add: unchanged_below_def)
  let ?res = "next_addr h2"
  let ?h3 = "h2\<lparr>arrays := (arrays h2)(?res := []), next_addr := Suc ?res\<rparr>"
  let ?hs = "\<lparr> bucket_of = bl, result_at = ?res, level_cd = [], room_cd = [], rand_h = rs' \<rparr>"
  have fresh: "?res \<notin> snd ` set bl" using ok1 n2 by (auto simp: buckets_ok_def)
  have n0res: "?n0 \<le> ?res" using ub1 n2 by (simp add: unchanged_below_def)
  have c3: "contents ?h3 bl = contents h2 bl" using fresh by (intro contents_cong) force
  have ub3: "unchanged_below ?n0 h2 ?h3" using n0res by (auto simp: unchanged_below_def)
  have ub03: "unchanged_below ?n0 h ?h3"
    using ub1 ub2 ub3 by (blast intro: unchanged_below_trans)
  have ok3: "heap_ok ?n0 ?h3 ?hs" using ok1 n2 fresh n0res by (auto simp: heap_ok_def buckets_ok_def)
  have v: "initial_state (objects h) ?ss rs = view ?h3 ?hs"
    using c1 c2 [symmetric] c3 by (simp add: initial_state_def view_def contents_def)
  have o3: "objects h = objects ?h3" using ub03 by (simp add: unchanged_below_def)
  have a3: "length ?ss = length (arrays ?h3 students)"
    using ub03 alloc by (simp add: unchanged_below_def)
  have fh: "fairDistributionShuffle_h rs students h
      = pick_loop_h (rooms_per_level (objects h) ?ss []) students ?hs ?h3"
    using False g s o1 a1 by (simp add: fairDistributionShuffle_h_def new_array_def)
  have fp: "fairDistributionShuffle (objects h) rs ?ss
      = pick_loop (objects h) (rooms_per_level (objects h) ?ss []) (length ?ss)
          (initial_state (objects h) ?ss rs)"
    using False by (simp add: fairDistributionShuffle_def)
  from pick_loop_h_refines [OF ok3 alloc v o3 a3, of "rooms_per_level (objects h) ?ss []"]
  show ?thesis unfolding fh fp using ub03 False n0res
    by (auto split: sum.splits intro: unchanged_below_trans)
qed

section \<open>What the result depends on\<close>

lemma same_groups_Cons:
  "same_groups (s # ss) objs objs' \<longleftrightarrow>
   level (objs s) = level (objs' s) \<and> room (objs s) = room (objs' s) \<and> same_groups ss objs objs'"
  by (auto simp: same_groups_def)

lemma group_by_level_cong:
  "same_groups ss objs objs' \<Longrightarrow> group_by_level objs ss bl = group_by_level objs' ss bl"
  by (induction ss arbitrary: bl) (simp_all add: same_groups_Cons)

lemma rooms_per_level_cong:
  "same_groups ss objs objs' \<Longrightarrow> rooms_per_level objs ss rpl = rooms_per_level objs' ss rpl"
  by (induction ss arbitrary: rpl) (simp_all add: same_groups_Cons)

lemma lowest_room_cong:
  "same_groups b objs objs' \<Longrightarrow> lowest_room objs rc lv b acc = lowest_room objs' rc lv b acc"
proof (induction b arbitrary: acc)
  case Nil
  then show ?case by simp
next
  case (Cons s b)
  obtain m best where acc: "acc = (m, best)" by (cases acc)
  from Cons.prems have r: "room (objs s) = room (objs' s)" and sg: "same_groups b objs objs'"
    by (simp_all add: same_groups_Cons)
  show ?case unfolding acc using Cons.IH [OF sg] by (simp add: r split: option.splits)
qed

lemma students_to_pick_cong:
  assumes "same_groups b objs objs'"
  shows "students_to_pick objs rc lv b = students_to_pick objs' rc lv b"
proof -
  have "valid_students objs rc lv b = valid_students objs' rc lv b"
    unfolding valid_students_def using assms by (intro filter_cong) (auto simp: same_groups_def)
  then show ?thesis using lowest_room_cong [OF assms] by (simp add: students_to_pick_def Let_def)
qed

lemma try_levels_cong:
  assumes "\<forall>(lv, b) \<in> set bl. same_groups b objs objs'"
  shows "try_levels objs bl rc lvs rs = try_levels objs' bl rc lvs rs"
proof (induction lvs)
  case Nil
  then show ?case by simp
next
  case (Cons lv lvs)
  show ?case
  proof (cases "map_of bl lv")
    case None
    then show ?thesis by simp
  next
    case (Some b)
    then have "(lv, b) \<in> set bl" by (rule map_of_SomeD)
    then have "same_groups b objs objs'" using assms by auto
    then show ?thesis using Some Cons.IH students_to_pick_cong [of b objs objs' rc lv]
      by (simp add: Let_def)
  qed
qed

lemma chosen_cong:
  assumes "\<forall>(lv, b) \<in> set (byLevel st). same_groups b objs objs'"
  shows "chosen objs st = chosen objs' st"
  using try_levels_cong [OF assms]
  by (simp add: chosen_def selection_def split: option.splits prod.splits)

lemma commit_cong:
  "room (objs s) = room (objs' s) \<Longrightarrow> commit objs rpl st s lv rs = commit objs' rpl st s lv rs"
  by (simp add: commit_def Let_def split: option.splits)

lemma iteration_cong:
  assumes inv: "loop_inv objs students st" and sg: "same_groups students objs objs'"
  shows "iteration objs rpl st = iteration objs' rpl st"
proof -
  have sub: "\<forall>(lv, b) \<in> set (byLevel st). same_groups b objs objs'"
  proof (clarify)
    fix lv b assume "(lv, b) \<in> set (byLevel st)"
    then have "map_of (byLevel st) lv = Some b" using inv by (simp add: loop_inv_def)
    then have "\<forall>s \<in> set b. s \<in> set students" using loop_inv_member [OF inv] by blast
    then show "same_groups b objs objs'" using sg by (auto simp: same_groups_def)
  qed
  have ch: "chosen objs st = chosen objs' st" by (rule chosen_cong [OF sub])
  show ?thesis
  proof (cases "chosen objs st")
    case None
    then show ?thesis using ch by (simp add: iteration_def)
  next
    case (Some c)
    show ?thesis
    proof (cases c)
      case (Inl e)
      then show ?thesis using Some ch by (simp add: iteration_def)
    next
      case (Inr p)
      obtain sel rs where p: "p = (sel, rs)" by (cases p)
      show ?thesis
      proof (cases "nothing_selected sel")
        case True
        then show ?thesis using Some Inr p ch by (simp add: iteration_def)
      next
        case False
        then have "picked objs st = Some (the (fst sel), the (snd sel))"
          using Some Inr p by (simp add: picked_def)
        from chosen_in_bucket [OF _ this] inv obtain b where
          "map_of (byLevel st) (the (snd sel)) = Some b" "the (fst sel) \<in> set b"
          by (auto simp: loop_inv_def)
        from loop_inv_member [OF inv this] sg
        have "room (objs (the (fst sel))) = room (objs' (the (fst sel)))"
          by (simp add: same_groups_def)
        then have "commit objs rpl st (the (fst sel)) (the (snd sel)) rs
            = commit objs' rpl st (the (fst sel)) (the (snd sel)) rs"
          by (rule commit_cong [where objs = objs and objs' = objs' and s = "the (fst sel)"])
        then show ?thesis using Some Inr p ch False
          by (simp add: iteration_def)
      qed
    qed
  qed
qed

lemma pick_loop_cong:
  "loop_inv objs students st \<Longrightarrow> same_groups students objs objs' \<Longrightarrow>
   pick_loop objs rpl n st = pick_loop objs' rpl n st"
proof (induction objs rpl n st rule: pick_loop.induct)
  case (1 objs rpl n st)
  have it: "iteration objs rpl st = iteration objs' rpl st"
    by (rule iteration_cong [OF "1.prems"])
  show ?case
  proof (cases "length (result st) < n")
    case False
    then show ?thesis
      by (simp add: pick_loop.simps [of objs rpl n st] pick_loop.simps [of objs' rpl n st])
  next
    case True
    show ?thesis
    proof (cases "iteration objs rpl st")
      case (Next st')
      from iteration_inv [OF "1.prems"(1) Next] have "loop_inv objs students st'" by simp
      from "1.IH" [OF True Next this "1.prems"(2)] show ?thesis using True Next it
        by (simp add: pick_loop.simps [of objs rpl n st] pick_loop.simps [of objs' rpl n st])
    qed (use True it in \<open>simp_all add: pick_loop.simps [of objs rpl n st]
          pick_loop.simps [of objs' rpl n st]\<close>)
  qed
qed

lemma shuffle_cong:
  assumes "same_groups students objs objs'"
  shows "fairDistributionShuffle objs rs students = fairDistributionShuffle objs' rs students"
proof -
  have i: "initial_state objs students rs = initial_state objs' students rs"
    using group_by_level_cong [OF assms] by (simp add: initial_state_def)
  have r: "rooms_per_level objs students [] = rooms_per_level objs' students []"
    by (rule rooms_per_level_cong [OF assms])
  have "pick_loop objs (rooms_per_level objs students []) (length students)
          (initial_state objs students rs)
      = pick_loop objs' (rooms_per_level objs students []) (length students)
          (initial_state objs students rs)"
    by (rule pick_loop_cong [OF initial_state_inv assms])
  then show ?thesis using i r by (simp add: fairDistributionShuffle_def)
qed

section \<open>Pools of at most two students\<close>

text \<open>
  Claim C2. A pool of at most two students (the empty pool, a single student, two students)
  is returned as it is, in its order: the first statement of the function returns the
  input array itself, before any grouping, cooldown or random choice, so the heap is as
  before and no iteration of the pick loop runs.
\<close>

theorem small_pool_unchanged:
  assumes "length (arrays h students) \<le> 2"
  shows "fairDistributionShuffle_h rs students h = Some (Inr (students, h)) \<and>
    fairDistributionShuffle (objects h) rs (arrays h students) = Inr (arrays h students) \<and>
    iterations (objects h) rs (arrays h students) = []"
  using assms
  by (simp add: fairDistributionShuffle_h_def fairDistributionShuffle_def iterations_def)

theorem small_pool_unchanged_witness:
  "length (arrays other_heap 0) \<le> 2 \<and>
   fairDistributionShuffle_h [1, 0, 1] 0 other_heap = Some (Inr (0, other_heap)) \<and>
   fairDistributionShuffle (objects other_heap) [1, 0, 1] (arrays other_heap 0) = Inr [7, 8] \<and>
   iterations (objects other_heap) [1, 0, 1] (arrays other_heap 0) = []"
proof -
  have h: "length (arrays other_heap 0) \<le> 2" by (simp add: other_heap_def)
  have a: "arrays other_heap 0 = [7, 8]" by (simp add: other_heap_def)
  show ?thesis using small_pool_unchanged [OF h, of "[1, 0, 1]"] h by (simp only: a simp_thms)
qed

section \<open>Pools with a level that is the empty string\<close>

text \<open>
  The variables \<^verbatim>\<open>bestLevel\<close> and \<^verbatim>\<open>selectedLevel\<close> are tested for \<^verbatim>\<open>null\<close> by their
  truthiness, and the empty string is falsy. A level \<^verbatim>\<open>""\<close> that was selected therefore
  counts as no selection: the emergency fallback runs, and when it selects the level \<^verbatim>\<open>""\<close>
  again the loop breaks although students remain. The lemmas \<open>shuffle_permutes\<close>,
  \<open>level_cooldown_respected\<close>, \<open>level_spacing\<close>, \<open>no_emergency_when_levels_nonempty\<close> and
  \<open>picks_when_levels_nonempty\<close> above hold for every pool without such a level; the
  theorems of this section evaluate the function on pools that have one.
\<close>





section \<open>Bounds of the cooldown counters\<close>




section \<open>The rotation over the rooms of a level\<close>

text \<open>
  Claim C4, as amended. A room that was just picked gets the cooldown
  \<open>max (roomCount L - 1) 0\<close>, where \<open>roomCount L\<close> is the number of distinct rooms of its level
  in the pool, fixed for the run; every later pick, of any level, lowers it by one, down to
  0. When the pool consists of one level, not the empty string, with at least three rooms,
  the first three picks come from three distinct rooms, for every behaviour of the random
  source.
\<close>

theorem room_round_robin:
  "(\<forall>st \<in> set (iterations objs rs students). \<forall>s lv st'.
      picked objs st = Some (s, lv) \<longrightarrow>
      iteration objs (rooms_per_level objs students []) st = Next st' \<longrightarrow>
      (\<forall>k. get_or_0 (roomCooldown st') k =
         (if k = room_key lv (room (objs s)) then room_window objs students lv
          else max (get_or_0 (roomCooldown st) k - 1) 0))) \<and>
   ((\<forall>s \<in> set students. level (objs s) = lv0) \<longrightarrow> lv0 \<noteq> [] \<longrightarrow>
    3 \<le> roomCount objs students lv0 \<longrightarrow>
    (\<exists>out. fairDistributionShuffle objs rs students = Inr out \<and> mset out = mset students \<and>
       distinct (map (\<lambda>s. room (objs s)) (take 3 out))))"
proof (intro conjI ballI allI impI)
  fix st s lv st' k
  assume st: "st \<in> set (iterations objs rs students)"
    and p: "picked objs st = Some (s, lv)"
    and n: "iteration objs (rooms_per_level objs students []) st = Next st'"
  have inv: "loop_inv objs students st" using iterations_inv [OF st] by simp
  from n p obtain rs' where c: "commit objs (rooms_per_level objs students []) st s lv rs' = Inr st'"
    by (auto simp: iteration_Next)
  from chosen_in_bucket [OF _ p] inv obtain b where
    b: "map_of (byLevel st) lv = Some b" "s \<in> set b" by (auto simp: loop_inv_def)
  from loop_inv_member [OF inv b] have s: "s \<in> set students" "level (objs s) = lv" by simp_all
  have "max (room_count (rooms_per_level objs students []) lv - 1) 0 = room_window objs students lv"
    using room_count_eq [OF s(1), of objs] s(2) by (simp add: room_window_def)
  then show "get_or_0 (roomCooldown st') k =
         (if k = room_key lv (room (objs s)) then room_window objs students lv
          else max (get_or_0 (roomCooldown st) k - 1) 0)"
    using commit_room_cooldown [OF c, of k] by simp
next
  assume "\<forall>s \<in> set students. level (objs s) = lv0" "lv0 \<noteq> []" "3 \<le> roomCount objs students lv0"
  then show "\<exists>out. fairDistributionShuffle objs rs students = Inr out \<and> mset out = mset students \<and>
       distinct (map (\<lambda>s. room (objs s)) (take 3 out))"
    by (rule single_level_round_robin)
qed

theorem room_round_robin_witness:
  "iterations one_level_pool [3, 1] [0, 1, 2, 3, 4, 5] ! 1
     \<in> set (iterations one_level_pool [3, 1] [0, 1, 2, 3, 4, 5]) \<and>
   picked one_level_pool (iterations one_level_pool [3, 1] [0, 1, 2, 3, 4, 5] ! 1) = Some (1, ''L'') \<and>
   iteration one_level_pool (rooms_per_level one_level_pool [0, 1, 2, 3, 4, 5] [])
     (iterations one_level_pool [3, 1] [0, 1, 2, 3, 4, 5] ! 1)
     = Next (iterations one_level_pool [3, 1] [0, 1, 2, 3, 4, 5] ! 2) \<and>
   get_or_0 (roomCooldown (iterations one_level_pool [3, 1] [0, 1, 2, 3, 4, 5] ! 2))
     (room_key ''L'' (room (one_level_pool 1))) = room_window one_level_pool [0, 1, 2, 3, 4, 5] ''L'' \<and>
   list_all (\<lambda>s. level (one_level_pool s) = ''L'') [0, 1, 2, 3, 4, 5] \<and> ''L'' \<noteq> [] \<and>
   3 \<le> roomCount one_level_pool [0, 1, 2, 3, 4, 5] ''L'' \<and>
   (\<exists>out. fairDistributionShuffle one_level_pool [3, 1] [0, 1, 2, 3, 4, 5] = Inr out \<and>
      mset out = mset [0, 1, 2, 3, 4, 5] \<and>
      distinct (map (\<lambda>s. room (one_level_pool s)) (take 3 out)))"
proof -
  let ?P = "[0, 1, 2, 3, 4, 5] :: sref list"
  let ?its = "iterations one_level_pool [3, 1] ?P"
  have h1: "?its ! 1 \<in> set ?its" by code_simp
  have h2: "picked one_level_pool (?its ! 1) = Some (1, ''L'')" by code_simp
  have h3: "iteration one_level_pool (rooms_per_level one_level_pool ?P []) (?its ! 1)
      = Next (?its ! 2)" by code_simp
  have h4: "list_all (\<lambda>s. level (one_level_pool s) = ''L'') ?P" by code_simp
  then have h4': "\<forall>s \<in> set ?P. level (one_level_pool s) = ''L''" by (simp only: list_all_iff)
  have h5: "3 \<le> roomCount one_level_pool ?P ''L''" by code_simp
  have h6: "''L'' \<noteq> []" by simp
  note t = room_round_robin [of one_level_pool "[3, 1]" ?P "''L''"]
  have a: "\<forall>k. get_or_0 (roomCooldown (?its ! 2)) k =
         (if k = room_key ''L'' (room (one_level_pool 1)) then room_window one_level_pool ?P ''L''
          else max (get_or_0 (roomCooldown (?its ! 1)) k - 1) 0)"
    by (rule t [THEN conjunct1, THEN bspec, OF h1, THEN spec, THEN spec, THEN spec, THEN mp,
          OF h2, THEN mp, OF h3])
  have c1: "get_or_0 (roomCooldown (?its ! 2))
     (room_key ''L'' (room (one_level_pool 1))) = room_window one_level_pool ?P ''L''"
    using a [THEN spec, of "room_key ''L'' (room (one_level_pool 1))"] by (simp only: refl if_True)
  have c2: "\<exists>out. fairDistributionShuffle one_level_pool [3, 1] ?P = Inr out \<and>
      mset out = mset ?P \<and> distinct (map (\<lambda>s. room (one_level_pool s)) (take 3 out))"
    by (rule t [THEN conjunct2, THEN mp, OF h4', THEN mp, THEN mp, OF _ h5]) (rule h6)
  show ?thesis by (intro conjI h1 h2 h3 c1 h4 h6 h5 c2)
qed

text \<open>
  The claim as stated is about a level among others. In a pool with level \<^verbatim>\<open>L\<close> (rooms
  \<^verbatim>\<open>A\<close>, \<^verbatim>\<open>B\<close>, \<^verbatim>\<open>C\<close> with two students each) and five more levels with two students each, the
  first thirteen iterations use no fallback at all (neither the level fallback, nor the
  room fallback, nor the emergency fallback), and the first three picks from \<^verbatim>\<open>L\<close> come
  from the rooms \<^verbatim>\<open>A\<close>, \<^verbatim>\<open>A\<close>, \<^verbatim>\<open>B\<close>: the five picks from other levels between two picks
  from \<^verbatim>\<open>L\<close> use up the room cooldown of 2.
\<close>

theorem six_levels_repeat_room:
  "fairDistributionShuffle six_level_pool [] [0, 1, 2, 3, 4, 5, 6, 7, 8, 9, 10, 11, 12, 13, 14, 15]
     = Inr [0, 6, 7, 8, 9, 10, 1, 11, 12, 13, 14, 15, 2, 4, 3, 5] \<and>
   map (\<lambda>st. (level_fallback st, room_fallback six_level_pool st, emergency_taken six_level_pool st))
     (take 13 (iterations six_level_pool [] [0, 1, 2, 3, 4, 5, 6, 7, 8, 9, 10, 11, 12, 13, 14, 15]))
     = replicate 13 (False, False, False) \<and>
   map (\<lambda>s. (level (six_level_pool s), room (six_level_pool s)))
     (take 3 (filter (\<lambda>s. level (six_level_pool s) = ''L'')
        [0, 6, 7, 8, 9, 10, 1, 11, 12, 13, 14, 15, 2, 4, 3, 5]))
     = [(''L'', ''A''), (''L'', ''A''), (''L'', ''B'')] \<and>
   map (\<lambda>rm. length (filter (\<lambda>s. level (six_level_pool s) = ''L'' \<and> room (six_level_pool s) = rm)
        [0, 1, 2, 3, 4, 5, 6, 7, 8, 9, 10, 11, 12, 13, 14, 15])) [''A'', ''B'', ''C'']
     = [2, 2, 2]"
  by code_simp

section \<open>The call and the heap\<close>

lemma shuffle_h_returns:
  assumes "students < next_addr h"
  shows "\<exists>res h'. fairDistributionShuffle_h rs students h = Some (Inr (res, h')) \<and>
    unchanged_below (next_addr h) h h' \<and>
    set (arrays h' res) \<subseteq> set (arrays h students) \<and>
    fairDistributionShuffle (objects h) rs (arrays h students) = Inr (arrays h' res)"
proof -
  from shuffle_returns [of "objects h" rs "arrays h students"] obtain out where
    out: "fairDistributionShuffle (objects h) rs (arrays h students) = Inr out"
      "mset out \<subseteq># mset (arrays h students)" by auto
  from shuffle_h_refines [OF assms, of rs] out(1) obtain res h' where
    r: "fairDistributionShuffle_h rs students h = Some (Inr (res, h'))" "arrays h' res = out"
      "unchanged_below (next_addr h) h h'" by auto
  have "set out \<subseteq> set (arrays h students)" using set_mset_mono [OF out(2)] by simp
  then show ?thesis using r out(1) by auto
qed

text \<open>
  Claim C8. The call does not mutate its input. For an input array that is allocated, the
  call returns, and in the heap it leaves the input array has its length, contents and order
  as before, every array that existed before the call is as before, and no field of any
  \<^verbatim>\<open>Student\<close> object has changed. The entries of the returned array are references that the
  input array holds, so they are the very objects that were passed in, and the contents of
  the returned array are what the function on lists computes.
\<close>

theorem input_not_mutated:
  assumes "students < next_addr h"
  shows "\<exists>res h'. fairDistributionShuffle_h rs students h = Some (Inr (res, h')) \<and>
    arrays h' students = arrays h students \<and>
    (\<forall>a < next_addr h. arrays h' a = arrays h a) \<and>
    objects h' = objects h \<and>
    set (arrays h' res) \<subseteq> set (arrays h students) \<and>
    fairDistributionShuffle (objects h) rs (arrays h students) = Inr (arrays h' res)"
  using shuffle_h_returns [OF assms, of rs] assms by (auto simp: unchanged_below_def)

theorem input_not_mutated_witness:
  "(0 :: addr) < next_addr example_heap \<and>
   (\<exists>res h'. fairDistributionShuffle_h [3, 1] 0 example_heap = Some (Inr (res, h')) \<and>
      arrays h' 0 = arrays example_heap 0 \<and>
      (\<forall>a < next_addr example_heap. arrays h' a = arrays example_heap a) \<and>
      objects h' = objects example_heap \<and>
      set (arrays h' res) \<subseteq> set (arrays example_heap 0) \<and>
      fairDistributionShuffle (objects example_heap) [3, 1] (arrays example_heap 0)
        = Inr (arrays h' res))"
proof -
  have h: "(0 :: addr) < next_addr example_heap" by (simp add: example_heap_def)
  show ?thesis by (intro conjI h input_not_mutated [OF h])
qed

text \<open>
  Claim C9. The result of a call is determined by the pool and the random sequence. Two
  calls with the same random sequence, in any two heaps, on input arrays with the same
  entries whose levels and rooms are the same in both heaps, return arrays with the same
  contents; and a call made after an earlier call of the function (on any allocated pool,
  with any random sequence) returns what it returns without the earlier call. The only
  state a call leaves behind is the heap, and the cooldown maps of a call start empty.
\<close>

theorem result_determined_by_pool_and_random_source:
  assumes "students < next_addr h"
  shows "(\<forall>h' students'. students' < next_addr h' \<longrightarrow>
            arrays h' students' = arrays h students \<longrightarrow>
            same_groups (arrays h students) (objects h) (objects h') \<longrightarrow>
            (\<exists>res g res' g'. fairDistributionShuffle_h rs students h = Some (Inr (res, g)) \<and>
               fairDistributionShuffle_h rs students' h' = Some (Inr (res', g')) \<and>
               arrays g' res' = arrays g res)) \<and>
         (\<forall>rs0 students0 res0 g0. students0 < next_addr h \<longrightarrow>
            fairDistributionShuffle_h rs0 students0 h = Some (Inr (res0, g0)) \<longrightarrow>
            (\<exists>res g res' g'. fairDistributionShuffle_h rs students h = Some (Inr (res, g)) \<and>
               fairDistributionShuffle_h rs students g0 = Some (Inr (res', g')) \<and>
               arrays g' res' = arrays g res))"
proof -
  have two: "\<exists>res g res' g'. fairDistributionShuffle_h rs students h = Some (Inr (res, g)) \<and>
               fairDistributionShuffle_h rs students' h' = Some (Inr (res', g')) \<and>
               arrays g' res' = arrays g res"
    if a: "students' < next_addr h'" "arrays h' students' = arrays h students"
      "same_groups (arrays h students) (objects h) (objects h')" for h' students'
  proof -
    from shuffle_h_returns [OF assms, of rs] obtain res g where
      1: "fairDistributionShuffle_h rs students h = Some (Inr (res, g))"
        "fairDistributionShuffle (objects h) rs (arrays h students) = Inr (arrays g res)" by auto
    from shuffle_h_returns [OF a(1), of rs] obtain res' g' where
      2: "fairDistributionShuffle_h rs students' h' = Some (Inr (res', g'))"
        "fairDistributionShuffle (objects h') rs (arrays h' students') = Inr (arrays g' res')" by auto
    from shuffle_cong [OF a(3), of rs] 1(2) 2(2) a(2) have "arrays g' res' = arrays g res" by simp
    then show ?thesis using 1(1) 2(1) by blast
  qed
  have later: "\<exists>res g res' g'. fairDistributionShuffle_h rs students h = Some (Inr (res, g)) \<and>
               fairDistributionShuffle_h rs students g0 = Some (Inr (res', g')) \<and>
               arrays g' res' = arrays g res"
    if b: "students0 < next_addr h" "fairDistributionShuffle_h rs0 students0 h = Some (Inr (res0, g0))"
    for rs0 students0 res0 g0
  proof -
    from shuffle_h_returns [OF b(1), of rs0] b(2) have ub: "unchanged_below (next_addr h) h g0"
      by auto
    then have "students < next_addr g0" "arrays g0 students = arrays h students"
      "same_groups (arrays h students) (objects h) (objects g0)"
      using assms by (auto simp: unchanged_below_def same_groups_def)
    then show ?thesis by (rule two)
  qed
  show ?thesis using two later by blast
qed

theorem result_determined_witness:
  "(0 :: addr) < next_addr example_heap \<and> (2 :: addr) < next_addr other_heap \<and>
   arrays other_heap 2 = arrays example_heap 0 \<and>
   same_groups (arrays example_heap 0) (objects example_heap) (objects other_heap) \<and>
   (\<exists>res g res' g'. fairDistributionShuffle_h [3, 1] 0 example_heap = Some (Inr (res, g)) \<and>
      fairDistributionShuffle_h [3, 1] 2 other_heap = Some (Inr (res', g')) \<and>
      arrays g' res' = arrays g res) \<and>
   (\<exists>res0 g0. fairDistributionShuffle_h [5, 4] 0 example_heap = Some (Inr (res0, g0)) \<and>
      (\<exists>res g res' g'. fairDistributionShuffle_h [3, 1] 0 example_heap = Some (Inr (res, g)) \<and>
         fairDistributionShuffle_h [3, 1] 0 g0 = Some (Inr (res', g')) \<and>
         arrays g' res' = arrays g res))"
proof -
  have h1: "(0 :: addr) < next_addr example_heap" by (simp add: example_heap_def)
  have h2: "(2 :: addr) < next_addr other_heap" by (simp add: other_heap_def)
  have h3: "arrays other_heap 2 = arrays example_heap 0"
    by (simp add: other_heap_def example_heap_def)
  have h4: "same_groups (arrays example_heap 0) (objects example_heap) (objects other_heap)"
    by code_simp
  note t = result_determined_by_pool_and_random_source [OF h1, of "[3, 1]"]
  have c1: "\<exists>res g res' g'. fairDistributionShuffle_h [3, 1] 0 example_heap = Some (Inr (res, g)) \<and>
      fairDistributionShuffle_h [3, 1] 2 other_heap = Some (Inr (res', g')) \<and>
      arrays g' res' = arrays g res"
    by (rule t [THEN conjunct1, THEN spec, THEN spec, THEN mp, OF h2, THEN mp, OF h3, THEN mp, OF h4])
  from shuffle_h_returns [OF h1, of "[5, 4]"] obtain res0 g0 where
    e: "fairDistributionShuffle_h [5, 4] 0 example_heap = Some (Inr (res0, g0))" by auto
  have "\<exists>res g res' g'. fairDistributionShuffle_h [3, 1] 0 example_heap = Some (Inr (res, g)) \<and>
         fairDistributionShuffle_h [3, 1] 0 g0 = Some (Inr (res', g')) \<and>
         arrays g' res' = arrays g res"
    by (rule t [THEN conjunct2, THEN spec, THEN spec, THEN spec, THEN spec, THEN mp, OF h1,
          THEN mp, OF e])
  with e have c2: "\<exists>res0 g0. fairDistributionShuffle_h [5, 4] 0 example_heap = Some (Inr (res0, g0)) \<and>
      (\<exists>res g res' g'. fairDistributionShuffle_h [3, 1] 0 example_heap = Some (Inr (res, g)) \<and>
         fairDistributionShuffle_h [3, 1] 0 g0 = Some (Inr (res', g')) \<and>
         arrays g' res' = arrays g res)" by blast
  show ?thesis by (intro conjI h1 h2 h3 h4 c1 c2)
qed

end
